theory Spec2Isabelle
  imports Main "HOL-Library.Word"
begin

unbundle bit_operations_syntax

section \<open>Wallet crypter and encrypted key store (src/wallet/crypter.cpp)\<close>

text \<open>
  A shallow embedding of \<^verbatim>\<open>src/wallet/crypter.cpp\<close>. Byte buffers
  (\<^verbatim>\<open>std::vector<unsigned char>\<close>, \<^verbatim>\<open>CKeyingMaterial\<close>, \<^verbatim>\<open>SecureString\<close>,
  \<^verbatim>\<open>uint256\<close>) are lists of 8-bit words. Member functions take the object and return
  the boolean result together with the updated object; an output parameter is returned as
  an \<open>option\<close> (\<open>None\<close> when the function returns false). The mutex \<^verbatim>\<open>cs_KeyStore\<close>
  and the signal \<^verbatim>\<open>NotifyStatusChanged\<close> have no effect on the values computed and are
  left out; \<^verbatim>\<open>memory_cleanse\<close> of a local buffer that is dropped afterwards is left
  out as well.
\<close>

type_synonym byte = "8 word"
type_synonym bytes = "byte list"

subsection \<open>Constants of crypter.h and aes.h\<close>

text \<open>
  Modelled from the spec: the headers \<^verbatim>\<open>crypter.h\<close> and \<^verbatim>\<open>crypto/aes.h\<close> are not
  among the sources. The spec fixes a 32-byte key, a 16-byte IV, an 8-byte salt and
  16-byte cipher blocks.
\<close>

abbreviation WALLET_CRYPTO_KEY_SIZE :: nat where "WALLET_CRYPTO_KEY_SIZE \<equiv> 32"
abbreviation WALLET_CRYPTO_SALT_SIZE :: nat where "WALLET_CRYPTO_SALT_SIZE \<equiv> 8"
abbreviation WALLET_CRYPTO_IV_SIZE :: nat where "WALLET_CRYPTO_IV_SIZE \<equiv> 16"
abbreviation AES_BLOCKSIZE :: nat where "AES_BLOCKSIZE \<equiv> 16"

subsection \<open>Buffers\<close>

text \<open>\<^verbatim>\<open>memcpy(dst, src, n)\<close>: the first \<open>n\<close> bytes of \<open>dst\<close> are replaced by those of \<open>src\<close>.\<close>

definition memcpy :: "bytes \<Rightarrow> bytes \<Rightarrow> nat \<Rightarrow> bytes" where
  "memcpy dst src n = take n src @ drop n dst"

text \<open>\<^verbatim>\<open>memory_cleanse(ptr, len)\<close> over a whole buffer: every byte becomes zero.\<close>

definition memory_cleanse :: "bytes \<Rightarrow> bytes" where
  "memory_cleanse buf = replicate (length buf) 0"

definition bytes_of :: "string \<Rightarrow> bytes" where
  "bytes_of s = map of_char s"

subsection \<open>CCrypter::BytesToKeySHA512AES\<close>

text \<open>
  The digest \<^verbatim>\<open>CSHA512\<close> (crypto/sha512.h) is not among the sources: it is the parameter
  \<open>sha\<close>, the function from the bytes written since the last reset to the digest that
  \<^verbatim>\<open>Finalize\<close> stores. The loop counter is a C \<^verbatim>\<open>int\<close>, a 32-bit word here; the loop
  runs until \<open>i\<close> equals \<open>count - 1\<close>.
\<close>

function kdf_loop :: "(bytes \<Rightarrow> bytes) \<Rightarrow> 32 word \<Rightarrow> 32 word \<Rightarrow> bytes \<Rightarrow> bytes" where
  "kdf_loop sha i count buf =
     (if i \<noteq> count - 1 then kdf_loop sha (i + 1) count (sha buf) else buf)"
  by pat_completeness auto
termination
proof (relation "measure (\<lambda>(sha, i, count, buf). unat (count - 1 - i))")
  show "wf (measure (\<lambda>(sha, i, count, buf). unat (count - 1 - i)))" by simp
next
  fix sha :: "bytes \<Rightarrow> bytes" and i count :: "32 word" and buf :: bytes
  assume ne: "i \<noteq> count - 1"
  then have "count - 1 - i \<noteq> 0" by simp
  then have "unat (count - 1 - i - 1) < unat (count - 1 - i)" by (rule measure_unat)
  moreover have "count - 1 - (i + 1) = count - 1 - i - 1" by simp
  ultimately show "((sha, i + 1, count, sha buf), (sha, i, count, buf))
      \<in> measure (\<lambda>(sha, i, count, buf). unat (count - 1 - i))" by simp
qed

text \<open>
  The output pointers \<open>key\<close> and \<open>iv\<close> are \<open>None\<close> when null and hold the buffer they
  point to otherwise. The result is the returned \<^verbatim>\<open>int\<close> and the two buffers.
\<close>

definition BytesToKeySHA512AES ::
  "(bytes \<Rightarrow> bytes) \<Rightarrow> bytes \<Rightarrow> bytes \<Rightarrow> 32 word \<Rightarrow> bytes option \<Rightarrow> bytes option
     \<Rightarrow> int \<times> bytes option \<times> bytes option" where
  "BytesToKeySHA512AES sha chSalt strKeyData count key iv =
     (if count = 0 \<or> key = None \<or> iv = None then (0, key, iv)
      else
        let written = (if chSalt \<noteq> [] then strKeyData @ chSalt else strKeyData);
            buf = sha written;
            buf = kdf_loop sha 0 count buf
        in (int WALLET_CRYPTO_KEY_SIZE,
            Some (memcpy (the key) buf WALLET_CRYPTO_KEY_SIZE),
            Some (memcpy (the iv) (drop WALLET_CRYPTO_KEY_SIZE buf) WALLET_CRYPTO_IV_SIZE)))"

subsection \<open>CCrypter\<close>

record CCrypter =
  vchKey :: bytes
  vchIV :: bytes
  fKeySet :: bool

text \<open>
  Modelled from the spec: the constructor of \<^verbatim>\<open>CCrypter\<close> is in crypter.h, which is not
  among the sources. A crypter holds a 32-byte key and a 16-byte IV and starts with no key
  set.
\<close>

definition CCrypter_init :: CCrypter where
  "CCrypter_init = \<lparr>vchKey = replicate WALLET_CRYPTO_KEY_SIZE 0,
                    vchIV = replicate WALLET_CRYPTO_IV_SIZE 0, fKeySet = False\<rparr>"

definition SetKeyFromPassphrase ::
  "(bytes \<Rightarrow> bytes) \<Rightarrow> CCrypter \<Rightarrow> bytes \<Rightarrow> bytes \<Rightarrow> 32 word \<Rightarrow> 32 word \<Rightarrow> bool \<times> CCrypter" where
  "SetKeyFromPassphrase sha c strKeyData chSalt nRounds nDerivationMethod =
     (if nRounds < 1 \<or> length chSalt \<noteq> WALLET_CRYPTO_SALT_SIZE then (False, c)
      else
        let (i, key, iv) =
              (if nDerivationMethod = 0
               then BytesToKeySHA512AES sha chSalt strKeyData nRounds
                      (Some (vchKey c)) (Some (vchIV c))
               else (0, Some (vchKey c), Some (vchIV c)));
            c = c\<lparr>vchKey := the key, vchIV := the iv\<rparr>
        in if i \<noteq> int WALLET_CRYPTO_KEY_SIZE
           then (False, c\<lparr>vchKey := memory_cleanse (vchKey c), vchIV := memory_cleanse (vchIV c)\<rparr>)
           else (True, c\<lparr>fKeySet := True\<rparr>))"

definition SetKey :: "CCrypter \<Rightarrow> bytes \<Rightarrow> bytes \<Rightarrow> bool \<times> CCrypter" where
  "SetKey c chNewKey chNewIV =
     (if length chNewKey \<noteq> WALLET_CRYPTO_KEY_SIZE \<or> length chNewIV \<noteq> WALLET_CRYPTO_IV_SIZE
      then (False, c)
      else (True, c\<lparr>vchKey := memcpy (vchKey c) chNewKey (length chNewKey),
                    vchIV := memcpy (vchIV c) chNewIV (length chNewIV),
                    fKeySet := True\<rparr>))"

subsection \<open>AES-256-CBC with PKCS#7 padding\<close>

text \<open>
  Modelled from the spec: \<^verbatim>\<open>AES256CBCEncrypt\<close> and \<^verbatim>\<open>AES256CBCDecrypt\<close> (crypto/aes.h)
  are not among the sources. The spec describes them as AES-256 in CBC mode with PKCS#7
  padding: encryption pads the plaintext to the next multiple of 16 bytes, a full block
  when the length already is one; decryption returns 0 on bad padding. Both calls return
  0 and write nothing when they are given no input: an empty plaintext is not padded to
  a block, so the length formula of the spec holds for the plaintexts that are not empty.
  The block cipher itself is a parameter: \<open>E key block\<close> enciphers one 16-byte block and
  \<open>D key block\<close> deciphers it. In both functions the list returned is what is written to
  the output buffer, and its length is the integer the C++ call returns.
\<close>

definition PKCS7_pad :: "bytes \<Rightarrow> bytes" where
  "PKCS7_pad data =
     (let padsize = AES_BLOCKSIZE - length data mod AES_BLOCKSIZE
      in data @ replicate padsize (of_nat padsize))"

fun CBC_encrypt_blocks :: "(bytes \<Rightarrow> bytes \<Rightarrow> bytes) \<Rightarrow> bytes \<Rightarrow> bytes \<Rightarrow> bytes \<Rightarrow> bytes" where
  "CBC_encrypt_blocks E key prev data =
     (if data = [] then []
      else let c = E key (map2 (XOR) prev (take AES_BLOCKSIZE data))
           in c @ CBC_encrypt_blocks E key c (drop AES_BLOCKSIZE data))"

fun CBC_decrypt_blocks :: "(bytes \<Rightarrow> bytes \<Rightarrow> bytes) \<Rightarrow> bytes \<Rightarrow> bytes \<Rightarrow> bytes \<Rightarrow> bytes" where
  "CBC_decrypt_blocks D key prev data =
     (if data = [] then []
      else map2 (XOR) prev (D key (take AES_BLOCKSIZE data))
           @ CBC_decrypt_blocks D key (take AES_BLOCKSIZE data) (drop AES_BLOCKSIZE data))"

definition AES256CBCEncrypt :: "(bytes \<Rightarrow> bytes \<Rightarrow> bytes) \<Rightarrow> bytes \<Rightarrow> bytes \<Rightarrow> bytes \<Rightarrow> bytes" where
  "AES256CBCEncrypt E key iv data =
     (if data = [] then [] else CBC_encrypt_blocks E key iv (PKCS7_pad data))"

definition AES256CBCDecrypt :: "(bytes \<Rightarrow> bytes \<Rightarrow> bytes) \<Rightarrow> bytes \<Rightarrow> bytes \<Rightarrow> bytes \<Rightarrow> bytes" where
  "AES256CBCDecrypt D key iv data =
     (if data = [] \<or> length data mod AES_BLOCKSIZE \<noteq> 0 then []
      else
        let out = CBC_decrypt_blocks D key iv data;
            padsize = unat (last out)
        in if padsize = 0 \<or> AES_BLOCKSIZE < padsize
              \<or> drop (length out - padsize) out \<noteq> replicate padsize (last out)
           then []
           else take (length out - padsize) out)"

subsection \<open>CCrypter::Encrypt and CCrypter::Decrypt\<close>

definition Encrypt :: "(bytes \<Rightarrow> bytes \<Rightarrow> bytes) \<Rightarrow> CCrypter \<Rightarrow> bytes \<Rightarrow> bytes option" where
  "Encrypt E c vchPlaintext =
     (if \<not> fKeySet c then None
      else
        let vchCiphertext = AES256CBCEncrypt E (vchKey c) (vchIV c) vchPlaintext;
            nLen = length vchCiphertext
        in if nLen < length vchPlaintext then None else Some vchCiphertext)"

definition Decrypt :: "(bytes \<Rightarrow> bytes \<Rightarrow> bytes) \<Rightarrow> CCrypter \<Rightarrow> bytes \<Rightarrow> bytes option" where
  "Decrypt D c vchCiphertext =
     (if \<not> fKeySet c then None
      else
        let vchPlaintext = AES256CBCDecrypt D (vchKey c) (vchIV c) vchCiphertext;
            nLen = length vchPlaintext
        in if nLen = 0 then None else Some vchPlaintext)"

text \<open>
  A concrete block cipher on which the definitions above are evaluated: it adds the sum
  of the key bytes to every byte of the block.
\<close>

definition demo_E :: "bytes \<Rightarrow> bytes \<Rightarrow> bytes" where
  "demo_E key block = map (\<lambda>b. b + sum_list key) block"

definition demo_D :: "bytes \<Rightarrow> bytes \<Rightarrow> bytes" where
  "demo_D key block = map (\<lambda>b. b - sum_list key) block"

definition demo_sha :: "bytes \<Rightarrow> bytes" where
  "demo_sha data = map (\<lambda>b. b + 1) (take 64 (data @ replicate 64 7))"

text \<open>What a block cipher and its inverse satisfy on 16-byte blocks.\<close>

definition block_cipher :: "(bytes \<Rightarrow> bytes \<Rightarrow> bytes) \<Rightarrow> (bytes \<Rightarrow> bytes \<Rightarrow> bytes) \<Rightarrow> bool" where
  "block_cipher E D \<longleftrightarrow>
     (\<forall>key block. length block = AES_BLOCKSIZE \<longrightarrow>
        length (E key block) = AES_BLOCKSIZE \<and> D key (E key block) = block)"

subsection \<open>Keys, public keys and the primitives taken as parameters\<close>

text \<open>
  Modelled from the spec: \<^verbatim>\<open>CKey\<close> (key.h) is not among the sources. A private key is
  its secret bytes, the range \<^verbatim>\<open>key.begin()\<close> to \<^verbatim>\<open>key.end()\<close>, and a compression
  flag; \<^verbatim>\<open>key.Set(begin, end, fCompressed)\<close> builds the key from both.
\<close>

record CKey =
  keydata :: bytes
  fCompressed :: bool

definition CKey_Set :: "bytes \<Rightarrow> bool \<Rightarrow> CKey" where
  "CKey_Set secret fCompressedIn = \<lparr>keydata = secret, fCompressed = fCompressedIn\<rparr>"

text \<open>
  The cryptographic primitives the file calls and does not define are the fields of a
  record passed to every function that needs them: the AES-256 block cipher and its
  inverse, \<^verbatim>\<open>CSHA256\<close>, \<^verbatim>\<open>CKey::GetPubKey\<close>, and the accessors \<^verbatim>\<open>GetID\<close>,
  \<^verbatim>\<open>GetHash\<close> and \<^verbatim>\<open>IsCompressed\<close> of \<^verbatim>\<open>CPubKey\<close>. The types of key
  identifiers (\<^verbatim>\<open>CKeyID\<close>, ordered as \<^verbatim>\<open>std::map\<close> needs) and of public keys are
  type parameters.
\<close>

record ('id, 'pub) primitives =
  AES256Encrypt :: "bytes \<Rightarrow> bytes \<Rightarrow> bytes"
  AES256Decrypt :: "bytes \<Rightarrow> bytes \<Rightarrow> bytes"
  CSHA256 :: "bytes \<Rightarrow> bytes"
  CKey_GetPubKey :: "CKey \<Rightarrow> 'pub"
  CPubKey_GetID :: "'pub \<Rightarrow> 'id"
  CPubKey_GetHash :: "'pub \<Rightarrow> bytes"
  CPubKey_IsCompressed :: "'pub \<Rightarrow> bool"

text \<open>
  Modelled from the spec: \<^verbatim>\<open>CKey::VerifyPubKey\<close> (key.cpp) is not among the sources.
  The spec has it check that the public key derived from the private key equals the one
  given.
\<close>

definition VerifyPubKey :: "('id, 'pub) primitives \<Rightarrow> CKey \<Rightarrow> 'pub \<Rightarrow> bool" where
  "VerifyPubKey P key vchPubKey \<longleftrightarrow> CKey_GetPubKey P key = vchPubKey"

subsection \<open>std::map\<close>

text \<open>
  A \<^verbatim>\<open>std::map\<close> is the list of its entries in iteration order, that is in increasing
  order of the keys. \<open>map_assign k v m\<close> is \<^verbatim>\<open>m[k] = v\<close>; \<^verbatim>\<open>m.find(k)\<close> is \<open>map_of m k\<close>.
\<close>

fun map_assign :: "'k::linorder \<Rightarrow> 'v \<Rightarrow> ('k \<times> 'v) list \<Rightarrow> ('k \<times> 'v) list" where
  "map_assign k v [] = [(k, v)]"
| "map_assign k v ((k', v') # m) =
     (if k < k' then (k, v) # (k', v') # m
      else if k = k' then (k, v) # m
      else (k', v') # map_assign k v m)"

subsection \<open>Secret envelopes\<close>

definition EncryptSecret :: "('id, 'pub) primitives \<Rightarrow> bytes \<Rightarrow> bytes \<Rightarrow> bytes \<Rightarrow> bytes option" where
  "EncryptSecret P vMasterKey vchPlaintext nIV =
     (let chIV = memcpy (replicate WALLET_CRYPTO_IV_SIZE 0) nIV WALLET_CRYPTO_IV_SIZE;
          (ok, cKeyCrypter) = SetKey CCrypter_init vMasterKey chIV
      in if \<not> ok then None
         else Encrypt (AES256Encrypt P) cKeyCrypter vchPlaintext)"

definition DecryptSecret :: "('id, 'pub) primitives \<Rightarrow> bytes \<Rightarrow> bytes \<Rightarrow> bytes \<Rightarrow> bytes option" where
  "DecryptSecret P vMasterKey vchCiphertext nIV =
     (let chIV = memcpy (replicate WALLET_CRYPTO_IV_SIZE 0) nIV WALLET_CRYPTO_IV_SIZE;
          (ok, cKeyCrypter) = SetKey CCrypter_init vMasterKey chIV
      in if \<not> ok then None
         else Decrypt (AES256Decrypt P) cKeyCrypter vchCiphertext)"

definition DecryptKey :: "('id, 'pub) primitives \<Rightarrow> bytes \<Rightarrow> bytes \<Rightarrow> 'pub \<Rightarrow> CKey option" where
  "DecryptKey P vMasterKey vchCryptedSecret vchPubKey =
     (case DecryptSecret P vMasterKey vchCryptedSecret (CPubKey_GetHash P vchPubKey) of
        None \<Rightarrow> None
      | Some vchSecret \<Rightarrow>
          if length vchSecret \<noteq> 32 then None
          else
            let key = CKey_Set vchSecret (CPubKey_IsCompressed P vchPubKey)
            in if VerifyPubKey P key vchPubKey then Some key else None)"

definition DoubleHashOfString :: "('id, 'pub) primitives \<Rightarrow> bytes \<Rightarrow> bytes" where
  "DoubleHashOfString P str =
     (if length str = 0 then replicate 32 0
      else let h1hash = CSHA256 P str; h2hash = CSHA256 P h1hash in h2hash)"

subsection \<open>CCryptoKeyStore\<close>

text \<open>
  The members of \<^verbatim>\<open>CCryptoKeyStore\<close> together with those it inherits from
  \<^verbatim>\<open>CBasicKeyStore\<close> (\<open>mapKeys\<close>, \<open>paperKey\<close>, \<open>pinCode\<close>).
\<close>

record ('id, 'pub) CCryptoKeyStore =
  mapKeys :: "('id \<times> CKey) list"
  paperKey :: bytes
  pinCode :: bytes
  fUseCrypto :: bool
  fDecryptionThoroughlyChecked :: bool
  vMasterKey :: bytes
  mapCryptedKeys :: "('id \<times> 'pub \<times> bytes) list"
  vchCryptedPaperKey :: bytes
  vchCryptedPinCode :: bytes

text \<open>
  Modelled from the spec: the constructor and \<^verbatim>\<open>IsCrypted\<close>, \<^verbatim>\<open>IsLocked\<close> are in
  crypter.h, which is not among the sources. A store begins uncrypted and empty;
  \<^verbatim>\<open>IsCrypted\<close> is the flag \<open>fUseCrypto\<close>, and a store is locked when it is crypted
  and the master key is empty.
\<close>

definition CCryptoKeyStore_init :: "('id, 'pub) CCryptoKeyStore" where
  "CCryptoKeyStore_init =
     \<lparr>mapKeys = [], paperKey = [], pinCode = [], fUseCrypto = False,
      fDecryptionThoroughlyChecked = False, vMasterKey = [], mapCryptedKeys = [],
      vchCryptedPaperKey = [], vchCryptedPinCode = []\<rparr>"

definition IsCrypted :: "('id, 'pub) CCryptoKeyStore \<Rightarrow> bool" where
  "IsCrypted st \<longleftrightarrow> fUseCrypto st"

definition IsLocked :: "('id, 'pub) CCryptoKeyStore \<Rightarrow> bool" where
  "IsLocked st \<longleftrightarrow> (if \<not> IsCrypted st then False else vMasterKey st = [])"

text \<open>
  Modelled from the spec: \<^verbatim>\<open>CBasicKeyStore\<close> (keystore.cpp) is not among the sources.
  It is the plain store the uncrypted path delegates to: it keeps private keys in
  \<open>mapKeys\<close> under the identifier of the public key, and the paper key and the PIN code
  as plaintext.
\<close>

definition CBasicKeyStore_AddKeyPubKey ::
  "('id::linorder, 'pub) primitives \<Rightarrow> ('id, 'pub) CCryptoKeyStore \<Rightarrow> CKey \<Rightarrow> 'pub
     \<Rightarrow> bool \<times> ('id, 'pub) CCryptoKeyStore" where
  "CBasicKeyStore_AddKeyPubKey P st key pubkey =
     (True, st\<lparr>mapKeys := map_assign (CPubKey_GetID P pubkey) key (mapKeys st)\<rparr>)"

definition CBasicKeyStore_GetKey :: "('id, 'pub) CCryptoKeyStore \<Rightarrow> 'id \<Rightarrow> CKey option" where
  "CBasicKeyStore_GetKey st address = map_of (mapKeys st) address"

definition CBasicKeyStore_AddPaperKey ::
  "('id, 'pub) CCryptoKeyStore \<Rightarrow> bytes \<Rightarrow> bool \<times> ('id, 'pub) CCryptoKeyStore" where
  "CBasicKeyStore_AddPaperKey st paperKeyIn = (True, st\<lparr>paperKey := paperKeyIn\<rparr>)"

definition CBasicKeyStore_GetPaperKey :: "('id, 'pub) CCryptoKeyStore \<Rightarrow> bytes option" where
  "CBasicKeyStore_GetPaperKey st = Some (paperKey st)"

definition CBasicKeyStore_AddPinCode ::
  "('id, 'pub) CCryptoKeyStore \<Rightarrow> bytes \<Rightarrow> bool \<times> ('id, 'pub) CCryptoKeyStore" where
  "CBasicKeyStore_AddPinCode st pinCodeIn = (True, st\<lparr>pinCode := pinCodeIn\<rparr>)"

definition CBasicKeyStore_GetPinCode :: "('id, 'pub) CCryptoKeyStore \<Rightarrow> bytes option" where
  "CBasicKeyStore_GetPinCode st = Some (pinCode st)"

subsubsection \<open>SetCrypted, Lock, Unlock\<close>

definition SetCrypted :: "('id, 'pub) CCryptoKeyStore \<Rightarrow> bool \<times> ('id, 'pub) CCryptoKeyStore" where
  "SetCrypted st =
     (if fUseCrypto st then (True, st)
      else if mapKeys st \<noteq> [] then (False, st)
      else (True, st\<lparr>fUseCrypto := True\<rparr>))"

definition Lock :: "('id, 'pub) CCryptoKeyStore \<Rightarrow> bool \<times> ('id, 'pub) CCryptoKeyStore" where
  "Lock st =
     (case SetCrypted st of
        (False, st) \<Rightarrow> (False, st)
      | (True, st) \<Rightarrow> (True, st\<lparr>vMasterKey := []\<rparr>))"

text \<open>
  The loop of \<^verbatim>\<open>Unlock\<close> over \<open>mapCryptedKeys\<close>: the result is the pair
  \<open>(keyPass, keyFail)\<close> when the loop is left.
\<close>

fun Unlock_loop ::
  "('id, 'pub) primitives \<Rightarrow> bytes \<Rightarrow> bool \<Rightarrow> ('id \<times> 'pub \<times> bytes) list \<Rightarrow> bool \<Rightarrow> bool \<times> bool" where
  "Unlock_loop P vMasterKeyIn checked [] keyPass = (keyPass, False)"
| "Unlock_loop P vMasterKeyIn checked ((address, vchPubKey, vchCryptedSecret) # rest) keyPass =
     (if DecryptKey P vMasterKeyIn vchCryptedSecret vchPubKey = None then (keyPass, True)
      else if checked then (True, False)
      else Unlock_loop P vMasterKeyIn checked rest True)"

text \<open>The entries that loop reaches before it is left, in order.\<close>

fun Unlock_inspected ::
  "('id, 'pub) primitives \<Rightarrow> bytes \<Rightarrow> bool \<Rightarrow> ('id \<times> 'pub \<times> bytes) list
     \<Rightarrow> ('id \<times> 'pub \<times> bytes) list" where
  "Unlock_inspected P vMasterKeyIn checked [] = []"
| "Unlock_inspected P vMasterKeyIn checked ((address, vchPubKey, vchCryptedSecret) # rest) =
     (if DecryptKey P vMasterKeyIn vchCryptedSecret vchPubKey = None
      then [(address, vchPubKey, vchCryptedSecret)]
      else if checked then [(address, vchPubKey, vchCryptedSecret)]
      else (address, vchPubKey, vchCryptedSecret) # Unlock_inspected P vMasterKeyIn checked rest)"

text \<open>A call either returns or stops the process in \<^verbatim>\<open>assert(false)\<close>.\<close>

datatype 'a outcome = AssertionFailure | Returns 'a

definition Unlock ::
  "('id, 'pub) primitives \<Rightarrow> ('id, 'pub) CCryptoKeyStore \<Rightarrow> bytes
     \<Rightarrow> (bool \<times> ('id, 'pub) CCryptoKeyStore) outcome" where
  "Unlock P st vMasterKeyIn =
     (case SetCrypted st of
        (False, st) \<Rightarrow> Returns (False, st)
      | (True, st) \<Rightarrow>
          let (keyPass, keyFail) =
                Unlock_loop P vMasterKeyIn (fDecryptionThoroughlyChecked st) (mapCryptedKeys st) False
          in if keyPass \<and> keyFail then AssertionFailure
             else if keyFail \<or> \<not> keyPass then Returns (False, st)
             else Returns (True, st\<lparr>vMasterKey := vMasterKeyIn,
                                     fDecryptionThoroughlyChecked := True\<rparr>))"

subsubsection \<open>Paper key and PIN code\<close>

definition AddCryptedPaperKey ::
  "('id, 'pub) CCryptoKeyStore \<Rightarrow> bytes \<Rightarrow> bool \<times> ('id, 'pub) CCryptoKeyStore" where
  "AddCryptedPaperKey st vchCryptedPaperKeyIn =
     (case SetCrypted st of
        (False, st) \<Rightarrow> (False, st)
      | (True, st) \<Rightarrow> (True, st\<lparr>vchCryptedPaperKey := vchCryptedPaperKeyIn\<rparr>))"

definition AddPaperKey ::
  "('id, 'pub) primitives \<Rightarrow> ('id, 'pub) CCryptoKeyStore \<Rightarrow> bytes
     \<Rightarrow> bool \<times> ('id, 'pub) CCryptoKeyStore" where
  "AddPaperKey P st paperKeyIn =
     (if \<not> IsCrypted st then CBasicKeyStore_AddPaperKey st paperKeyIn
      else if IsLocked st then (False, st)
      else
        case EncryptSecret P (vMasterKey st) paperKeyIn
               (DoubleHashOfString P (bytes_of ''paperkey'')) of
          None \<Rightarrow> (False, st)
        | Some vchOut \<Rightarrow> AddCryptedPaperKey st vchOut)"

definition GetPaperKey :: "('id, 'pub) primitives \<Rightarrow> ('id, 'pub) CCryptoKeyStore \<Rightarrow> bytes option" where
  "GetPaperKey P st =
     (if paperKey st \<noteq> [] then CBasicKeyStore_GetPaperKey st
      else if \<not> IsCrypted st then CBasicKeyStore_GetPaperKey st
      else DecryptSecret P (vMasterKey st) (vchCryptedPaperKey st)
             (DoubleHashOfString P (bytes_of ''paperkey'')))"

text \<open>
  \<^verbatim>\<open>DecryptPaperKey\<close> passes the member \<open>paperKey\<close> as the output parameter of
  \<^verbatim>\<open>GetPaperKey\<close>: the member is overwritten when the call returns true.
\<close>

definition DecryptPaperKey ::
  "('id, 'pub) primitives \<Rightarrow> ('id, 'pub) CCryptoKeyStore \<Rightarrow> ('id, 'pub) CCryptoKeyStore" where
  "DecryptPaperKey P st =
     (case GetPaperKey P st of None \<Rightarrow> st | Some p \<Rightarrow> st\<lparr>paperKey := p\<rparr>)"

definition AddCryptedPinCode ::
  "('id, 'pub) CCryptoKeyStore \<Rightarrow> bytes \<Rightarrow> bool \<times> ('id, 'pub) CCryptoKeyStore" where
  "AddCryptedPinCode st vchCryptedPinCodeIn =
     (case SetCrypted st of
        (False, st) \<Rightarrow> (False, st)
      | (True, st) \<Rightarrow> (True, st\<lparr>vchCryptedPinCode := vchCryptedPinCodeIn\<rparr>))"

definition AddPinCode ::
  "('id, 'pub) primitives \<Rightarrow> ('id, 'pub) CCryptoKeyStore \<Rightarrow> bytes
     \<Rightarrow> bool \<times> ('id, 'pub) CCryptoKeyStore" where
  "AddPinCode P st pinCodeIn =
     (if \<not> IsCrypted st then CBasicKeyStore_AddPinCode st pinCodeIn
      else if IsLocked st then (False, st)
      else
        case EncryptSecret P (vMasterKey st) pinCodeIn
               (DoubleHashOfString P (bytes_of ''pincode'')) of
          None \<Rightarrow> (False, st)
        | Some vchOut \<Rightarrow> AddCryptedPinCode st vchOut)"

definition GetPinCode :: "('id, 'pub) primitives \<Rightarrow> ('id, 'pub) CCryptoKeyStore \<Rightarrow> bytes option" where
  "GetPinCode P st =
     (if pinCode st \<noteq> [] then CBasicKeyStore_GetPinCode st
      else if \<not> IsCrypted st then CBasicKeyStore_GetPinCode st
      else DecryptSecret P (vMasterKey st) (vchCryptedPinCode st)
             (DoubleHashOfString P (bytes_of ''pincode'')))"

definition DecryptPinCode ::
  "('id, 'pub) primitives \<Rightarrow> ('id, 'pub) CCryptoKeyStore \<Rightarrow> ('id, 'pub) CCryptoKeyStore" where
  "DecryptPinCode P st =
     (case GetPinCode P st of None \<Rightarrow> st | Some p \<Rightarrow> st\<lparr>pinCode := p\<rparr>)"

subsubsection \<open>Keys\<close>

definition AddCryptedKey ::
  "('id::linorder, 'pub) primitives \<Rightarrow> ('id, 'pub) CCryptoKeyStore \<Rightarrow> 'pub \<Rightarrow> bytes
     \<Rightarrow> bool \<times> ('id, 'pub) CCryptoKeyStore" where
  "AddCryptedKey P st vchPubKey vchCryptedSecret =
     (case SetCrypted st of
        (False, st) \<Rightarrow> (False, st)
      | (True, st) \<Rightarrow>
          (True, st\<lparr>mapCryptedKeys :=
                      map_assign (CPubKey_GetID P vchPubKey) (vchPubKey, vchCryptedSecret)
                        (mapCryptedKeys st)\<rparr>))"

definition AddKeyPubKey ::
  "('id::linorder, 'pub) primitives \<Rightarrow> ('id, 'pub) CCryptoKeyStore \<Rightarrow> CKey \<Rightarrow> 'pub
     \<Rightarrow> bool \<times> ('id, 'pub) CCryptoKeyStore" where
  "AddKeyPubKey P st key pubkey =
     (if \<not> IsCrypted st then CBasicKeyStore_AddKeyPubKey P st key pubkey
      else if IsLocked st then (False, st)
      else
        case EncryptSecret P (vMasterKey st) (keydata key) (CPubKey_GetHash P pubkey) of
          None \<Rightarrow> (False, st)
        | Some vchCryptedSecret \<Rightarrow>
            (case AddCryptedKey P st pubkey vchCryptedSecret of
               (False, st) \<Rightarrow> (False, st)
             | (True, st) \<Rightarrow> (True, st)))"

definition GetKey ::
  "('id, 'pub) primitives \<Rightarrow> ('id, 'pub) CCryptoKeyStore \<Rightarrow> 'id \<Rightarrow> CKey option" where
  "GetKey P st address =
     (if \<not> IsCrypted st then CBasicKeyStore_GetKey st address
      else
        case map_of (mapCryptedKeys st) address of
          Some (vchPubKey, vchCryptedSecret) \<Rightarrow>
            DecryptKey P (vMasterKey st) vchCryptedSecret vchPubKey
        | None \<Rightarrow> None)"

text \<open>The loop of \<^verbatim>\<open>EncryptKeys\<close> over \<open>mapKeys\<close>; it is left early when a step fails.\<close>

fun EncryptKeys_loop ::
  "('id::linorder, 'pub) primitives \<Rightarrow> bytes \<Rightarrow> ('id \<times> CKey) list \<Rightarrow> ('id, 'pub) CCryptoKeyStore
     \<Rightarrow> bool \<times> ('id, 'pub) CCryptoKeyStore" where
  "EncryptKeys_loop P vMasterKeyIn [] st = (True, st)"
| "EncryptKeys_loop P vMasterKeyIn ((address, key) # rest) st =
     (let vchPubKey = CKey_GetPubKey P key
      in case EncryptSecret P vMasterKeyIn (keydata key) (CPubKey_GetHash P vchPubKey) of
           None \<Rightarrow> (False, st)
         | Some vchCryptedSecret \<Rightarrow>
             (case AddCryptedKey P st vchPubKey vchCryptedSecret of
                (False, st) \<Rightarrow> (False, st)
              | (True, st) \<Rightarrow> EncryptKeys_loop P vMasterKeyIn rest st))"

definition EncryptKeys ::
  "('id::linorder, 'pub) primitives \<Rightarrow> ('id, 'pub) CCryptoKeyStore \<Rightarrow> bytes
     \<Rightarrow> bool \<times> ('id, 'pub) CCryptoKeyStore" where
  "EncryptKeys P st vMasterKeyIn =
     (if mapCryptedKeys st \<noteq> [] \<or> IsCrypted st then (False, st)
      else
        case EncryptKeys_loop P vMasterKeyIn (mapKeys st) (st\<lparr>fUseCrypto := True\<rparr>) of
          (False, st) \<Rightarrow> (False, st)
        | (True, st) \<Rightarrow> (True, st\<lparr>mapKeys := []\<rparr>))"

definition EncryptPaperKey ::
  "('id, 'pub) primitives \<Rightarrow> ('id, 'pub) CCryptoKeyStore \<Rightarrow> bytes
     \<Rightarrow> bool \<times> ('id, 'pub) CCryptoKeyStore" where
  "EncryptPaperKey P st vMasterKeyIn =
     (if IsLocked st then (False, st)
      else
        case GetPaperKey P st of
          None \<Rightarrow> (False, st)
        | Some paperKeyOut \<Rightarrow>
            (case EncryptSecret P vMasterKeyIn paperKeyOut
                    (DoubleHashOfString P (bytes_of ''paperkey'')) of
               Some vchOut \<Rightarrow> (True, st\<lparr>vchCryptedPaperKey := vchOut, paperKey := []\<rparr>)
             | None \<Rightarrow> (False, st)))"

definition EncryptPinCode ::
  "('id, 'pub) primitives \<Rightarrow> ('id, 'pub) CCryptoKeyStore \<Rightarrow> bytes
     \<Rightarrow> bool \<times> ('id, 'pub) CCryptoKeyStore" where
  "EncryptPinCode P st vMasterKeyIn =
     (if IsLocked st then (False, st)
      else
        case GetPinCode P st of
          None \<Rightarrow> (False, st)
        | Some pinCodeOut \<Rightarrow>
            (case EncryptSecret P vMasterKeyIn pinCodeOut
                    (DoubleHashOfString P (bytes_of ''pincode'')) of
               Some vchOut \<Rightarrow> (True, st\<lparr>vchCryptedPinCode := vchOut, pinCode := []\<rparr>)
             | None \<Rightarrow> (False, st)))"

subsection \<open>Runs of the store\<close>

text \<open>
  The member functions of the file that can change the store, with their arguments. The
  remaining ones (\<^verbatim>\<open>GetKey\<close>, \<^verbatim>\<open>GetPubKey\<close>, \<^verbatim>\<open>GetPaperKey\<close>, \<^verbatim>\<open>GetPinCode\<close>,
  \<^verbatim>\<open>GetCryptedPaperKey\<close>, \<^verbatim>\<open>GetCryptedPinCode\<close>, \<^verbatim>\<open>DoubleHashOfString\<close>) only read
  it. A step gives the store after the call, whatever the call returns, and \<open>None\<close> when
  the call stops the process.
\<close>

datatype 'pub store_op =
    OpSetCrypted
  | OpLock
  | OpUnlock bytes
  | OpAddCryptedPaperKey bytes
  | OpAddPaperKey bytes
  | OpDecryptPaperKey
  | OpAddCryptedPinCode bytes
  | OpAddPinCode bytes
  | OpDecryptPinCode
  | OpAddKeyPubKey CKey 'pub
  | OpAddCryptedKey 'pub bytes
  | OpEncryptKeys bytes
  | OpEncryptPaperKey bytes
  | OpEncryptPinCode bytes

fun step ::
  "('id::linorder, 'pub) primitives \<Rightarrow> 'pub store_op \<Rightarrow> ('id, 'pub) CCryptoKeyStore
     \<Rightarrow> ('id, 'pub) CCryptoKeyStore option" where
  "step P OpSetCrypted st = Some (snd (SetCrypted st))"
| "step P OpLock st = Some (snd (Lock st))"
| "step P (OpUnlock m) st =
     (case Unlock P st m of AssertionFailure \<Rightarrow> None | Returns r \<Rightarrow> Some (snd r))"
| "step P (OpAddCryptedPaperKey v) st = Some (snd (AddCryptedPaperKey st v))"
| "step P (OpAddPaperKey p) st = Some (snd (AddPaperKey P st p))"
| "step P OpDecryptPaperKey st = Some (DecryptPaperKey P st)"
| "step P (OpAddCryptedPinCode v) st = Some (snd (AddCryptedPinCode st v))"
| "step P (OpAddPinCode p) st = Some (snd (AddPinCode P st p))"
| "step P OpDecryptPinCode st = Some (DecryptPinCode P st)"
| "step P (OpAddKeyPubKey key pubkey) st = Some (snd (AddKeyPubKey P st key pubkey))"
| "step P (OpAddCryptedKey pubkey v) st = Some (snd (AddCryptedKey P st pubkey v))"
| "step P (OpEncryptKeys m) st = Some (snd (EncryptKeys P st m))"
| "step P (OpEncryptPaperKey m) st = Some (snd (EncryptPaperKey P st m))"
| "step P (OpEncryptPinCode m) st = Some (snd (EncryptPinCode P st m))"

fun run ::
  "('id::linorder, 'pub) primitives \<Rightarrow> 'pub store_op list \<Rightarrow> ('id, 'pub) CCryptoKeyStore
     \<Rightarrow> ('id, 'pub) CCryptoKeyStore option" where
  "run P [] st = Some st"
| "run P (op # ops) st = (case step P op st of None \<Rightarrow> None | Some st' \<Rightarrow> run P ops st')"

text \<open>
  A call of \<^verbatim>\<open>EncryptKeys\<close> is broken off when it passes its first test, so that it sets
  \<open>fUseCrypto\<close>, and then returns false from inside its loop.
\<close>

definition broken_off ::
  "('id::linorder, 'pub) primitives \<Rightarrow> 'pub store_op \<Rightarrow> ('id, 'pub) CCryptoKeyStore \<Rightarrow> bool" where
  "broken_off P op st \<longleftrightarrow>
     (case op of
        OpEncryptKeys m \<Rightarrow>
          mapCryptedKeys st = [] \<and> \<not> IsCrypted st \<and> \<not> fst (EncryptKeys P st m)
      | _ \<Rightarrow> False)"

fun none_broken_off ::
  "('id::linorder, 'pub) primitives \<Rightarrow> 'pub store_op list \<Rightarrow> ('id, 'pub) CCryptoKeyStore \<Rightarrow> bool" where
  "none_broken_off P [] st = True"
| "none_broken_off P (op # ops) st =
     (\<not> broken_off P op st
      \<and> (case step P op st of None \<Rightarrow> True | Some st' \<Rightarrow> none_broken_off P ops st'))"

subsection \<open>What the primitives are assumed to satisfy\<close>

text \<open>
  The cipher is a block cipher, a hash has 32 bytes (it is a \<^verbatim>\<open>uint256\<close>), and a derived
  public key carries the compression flag of its private key.
\<close>

definition primitives_ok :: "('id, 'pub) primitives \<Rightarrow> bool" where
  "primitives_ok P \<longleftrightarrow>
     block_cipher (AES256Encrypt P) (AES256Decrypt P)
     \<and> (\<forall>pub. length (CPubKey_GetHash P pub) = 32)
     \<and> (\<forall>key. CPubKey_IsCompressed P (CKey_GetPubKey P key) = fCompressed key)"

text \<open>A private key is valid when its secret has 32 bytes.\<close>

definition valid_key :: "CKey \<Rightarrow> bool" where
  "valid_key key \<longleftrightarrow> length (keydata key) = 32"

text \<open>Valid private keys with the same public key are the same key.\<close>

definition derivation_injective :: "('id, 'pub) primitives \<Rightarrow> bool" where
  "derivation_injective P \<longleftrightarrow>
     (\<forall>k k'. valid_key k \<longrightarrow> valid_key k' \<longrightarrow>
        CKey_GetPubKey P k = CKey_GetPubKey P k' \<longrightarrow> k = k')"

text \<open>
  An entry of \<open>mapCryptedKeys\<close> as \<^verbatim>\<open>EncryptKeys\<close> makes it under the master key \<open>m\<close>: the
  public key of a valid private key with the encryption of its secret.
\<close>

definition made_under :: "('id, 'pub) primitives \<Rightarrow> bytes \<Rightarrow> 'id \<times> 'pub \<times> bytes \<Rightarrow> bool" where
  "made_under P m e \<longleftrightarrow>
     length m = 32 \<and>
     (\<exists>k. valid_key k \<and> fst (snd e) = CKey_GetPubKey P k
        \<and> snd (snd e) = AES256CBCEncrypt (AES256Encrypt P) m
              (take 16 (CPubKey_GetHash P (CKey_GetPubKey P k))) (keydata k))"

subsection \<open>A concrete instance of the primitives\<close>

text \<open>
  An instance on which the definitions are evaluated: the block cipher \<open>demo_E\<close>, a
  public key that is the secret with every byte increased by one together with the
  compression flag, the identifier the first byte of the public key, and the hash its
  first 32 bytes.
\<close>

definition demo_P :: "(nat, bytes \<times> bool) primitives" where
  "demo_P =
     \<lparr>AES256Encrypt = demo_E, AES256Decrypt = demo_D,
      CSHA256 = (\<lambda>data. take 32 (map (\<lambda>b. b + 3) data @ replicate 32 5)),
      CKey_GetPubKey = (\<lambda>key. (map (\<lambda>b. b + 1) (keydata key), fCompressed key)),
      CPubKey_GetID = (\<lambda>pub. unat (hd (fst pub @ [0]))),
      CPubKey_GetHash = (\<lambda>pub. take 32 (fst pub @ replicate 32 9)),
      CPubKey_IsCompressed = snd\<rparr>"

definition demo_master :: bytes where
  "demo_master = replicate 32 1"

definition demo_master2 :: bytes where
  "demo_master2 = 2 # 0 # replicate 30 1"

definition demo_key1 :: CKey where
  "demo_key1 = \<lparr>keydata = replicate 32 7, fCompressed = True\<rparr>"

definition demo_key2 :: CKey where
  "demo_key2 = \<lparr>keydata = replicate 32 20, fCompressed = False\<rparr>"

definition demo_keyed_crypter :: CCrypter where
  "demo_keyed_crypter = snd (SetKey CCrypter_init (replicate 32 1) (replicate 16 2))"

definition demo_init :: "(nat, bytes \<times> bool) CCryptoKeyStore" where
  "demo_init = CCryptoKeyStore_init"

definition demo_pub1 :: "bytes \<times> bool" where
  "demo_pub1 = CKey_GetPubKey demo_P demo_key1"

definition demo_pub2 :: "bytes \<times> bool" where
  "demo_pub2 = CKey_GetPubKey demo_P demo_key2"

definition demo_plain :: "(nat, bytes \<times> bool) CCryptoKeyStore" where
  "demo_plain = snd (AddKeyPubKey demo_P (snd (AddKeyPubKey demo_P demo_init demo_key1 demo_pub1))
                   demo_key2 demo_pub2)"

definition demo_crypted :: "(nat, bytes \<times> bool) CCryptoKeyStore" where
  "demo_crypted = snd (EncryptKeys demo_P demo_plain demo_master)"

definition demo_unlocked :: "(nat, bytes \<times> bool) CCryptoKeyStore" where
  "demo_unlocked = demo_crypted\<lparr>vMasterKey := demo_master, fDecryptionThoroughlyChecked := True\<rparr>"

definition demo_tampered :: "(nat, bytes \<times> bool) CCryptoKeyStore" where
  "demo_tampered = snd (AddCryptedKey demo_P demo_crypted ([200], False) (replicate 48 0))"

definition demo_key3 :: CKey where
  "demo_key3 = \<lparr>keydata = replicate 32 40, fCompressed = True\<rparr>"

definition demo_pub3 :: "bytes \<times> bool" where
  "demo_pub3 = CKey_GetPubKey demo_P demo_key3"

definition demo_ops :: "(bytes \<times> bool) store_op list" where
  "demo_ops = [OpAddKeyPubKey demo_key1 demo_pub1, OpEncryptKeys demo_master, OpLock,
               OpUnlock demo_master]"

definition demo_ops_broken :: "(bytes \<times> bool) store_op list" where
  "demo_ops_broken = [OpAddKeyPubKey demo_key1 demo_pub1, OpEncryptKeys []]"

definition demo_ops_paper :: "(bytes \<times> bool) store_op list" where
  "demo_ops_paper = [OpAddKeyPubKey demo_key1 demo_pub1, OpEncryptKeys demo_master,
                     OpUnlock demo_master, OpAddPaperKey (bytes_of ''abc''),
                     OpDecryptPaperKey, OpLock]"

section \<open>Properties\<close>

declare kdf_loop.simps [simp del]
declare CBC_encrypt_blocks.simps [simp del]
declare CBC_decrypt_blocks.simps [simp del]

subsection \<open>The key derivation\<close>

lemma kdf_loop_funpow: "kdf_loop sha i count buf = (sha ^^ unat (count - 1 - i)) buf"
proof (induction sha i count buf rule: kdf_loop.induct)
  case (1 sha i count buf)
  show ?case
  proof (cases "i = count - 1")
    case True
    then show ?thesis by (subst kdf_loop.simps) simp
  next
    case False
    then have nz: "count - 1 - i \<noteq> 0" by simp
    have eq: "count - 1 - (i + 1) = count - 1 - i - 1" by simp
    have "unat (count - 1 - i) = Suc (unat (count - 1 - (i + 1)))"
      using unat_minus_one [OF nz] measure_unat [OF nz] by (simp add: eq)
    with False 1 show ?thesis
      by (subst kdf_loop.simps) (simp add: funpow_swap1)
  qed
qed

lemma unat_pred_sint: "1 \<le> sint (count :: 32 word) \<Longrightarrow> unat (count - 1) = nat (sint count) - 1"
proof -
  assume h: "1 \<le> sint count"
  have "sint count < 2 ^ 32" using sint_lt [of count] by simp
  with h have "take_bit 32 (sint count) = sint count" by (intro take_bit_int_eq_self) simp_all
  then have su: "uint count = sint count" using uint_sint [of count] by simp
  with h have "count \<noteq> 0" by auto
  then have "unat (count - 1) = unat count - 1" by (rule unat_minus_one)
  moreover have "unat count = nat (sint count)" unfolding su [symmetric] by simp
  ultimately show ?thesis by simp
qed

text \<open>
  Claim C3. For a count of at least 1 (as the signed \<^verbatim>\<open>int\<close> it is) and output buffers
  of 32 and 16 bytes, \<open>BytesToKeySHA512AES\<close> returns 32 and leaves in the key buffer the
  first 32 bytes, in the IV buffer the next 16 bytes, of the digest chain: the digest of
  passphrase followed by salt, digested again \<open>count - 1\<close> times. With a count of 0 it
  returns 0 and writes nothing.
\<close>

theorem kdf_chain:
  "(1 \<le> sint count \<longrightarrow> length key = 32 \<longrightarrow> length iv = 16 \<longrightarrow>
      BytesToKeySHA512AES sha chSalt strKeyData count (Some key) (Some iv) =
        (let buf = (sha ^^ (nat (sint count) - 1)) (sha (strKeyData @ chSalt))
         in (32, Some (take 32 buf), Some (take 16 (drop 32 buf)))))
   \<and> BytesToKeySHA512AES sha chSalt strKeyData 0 okey oiv = (0, okey, oiv)"
proof (intro conjI impI)
  assume h: "1 \<le> sint count" and lk: "length key = 32" and li: "length iv = 16"
  from h have nz: "count \<noteq> 0" by auto
  have w: "(if chSalt \<noteq> [] then strKeyData @ chSalt else strKeyData) = strKeyData @ chSalt"
    by simp
  show "BytesToKeySHA512AES sha chSalt strKeyData count (Some key) (Some iv) =
        (let buf = (sha ^^ (nat (sint count) - 1)) (sha (strKeyData @ chSalt))
         in (32, Some (take 32 buf), Some (take 16 (drop 32 buf))))"
    unfolding BytesToKeySHA512AES_def Let_def w kdf_loop_funpow
    using nz lk li unat_pred_sint [OF h] by (simp add: memcpy_def)
next
  show "BytesToKeySHA512AES sha chSalt strKeyData 0 okey oiv = (0, okey, oiv)"
    by (simp add: BytesToKeySHA512AES_def)
qed

theorem kdf_chain_witness:
  "1 \<le> sint (2 :: 32 word) \<and> length (replicate 32 (0::byte)) = 32 \<and> length (replicate 16 (0::byte)) = 16
   \<and> BytesToKeySHA512AES demo_sha (replicate 8 0) (bytes_of ''test'') 2
         (Some (replicate 32 0)) (Some (replicate 16 0))
       = (32, Some (take 32 (demo_sha (demo_sha (bytes_of ''test'' @ replicate 8 0)))),
              Some (take 16 (drop 32 (demo_sha (demo_sha (bytes_of ''test'' @ replicate 8 0))))))"
  using kdf_chain [of 2 "replicate 32 0" "replicate 16 0" demo_sha "replicate 8 0" "bytes_of ''test''" None None]
  by (simp add: Let_def)

subsection \<open>SetKeyFromPassphrase\<close>

lemma KDF_succeeds:
  "nRounds \<noteq> 0 \<Longrightarrow> fst (BytesToKeySHA512AES sha chSalt strKeyData nRounds (Some k) (Some v)) = 32"
  by (simp add: BytesToKeySHA512AES_def Let_def)

text \<open>
  Claim C9, amended. \<open>SetKeyFromPassphrase\<close> returns true exactly when the rounds are at
  least 1, the salt has 8 bytes and the method is 0 (the key derivation itself cannot
  fail then). When the rounds are 0 or the salt has another length it returns false and
  leaves the crypter as it was, key, IV and \<open>fKeySet\<close> included. When only the method is
  not 0 it returns false with the key and IV buffers zeroed and \<open>fKeySet\<close> as it was.
\<close>

theorem SetKeyFromPassphrase_failure:
  "(fst (SetKeyFromPassphrase sha c strKeyData chSalt nRounds nDerivationMethod)
      \<longleftrightarrow> \<not> nRounds < 1 \<and> length chSalt = 8 \<and> nDerivationMethod = 0)
   \<and> (nRounds < 1 \<or> length chSalt \<noteq> 8 \<longrightarrow>
        SetKeyFromPassphrase sha c strKeyData chSalt nRounds nDerivationMethod = (False, c))
   \<and> (\<not> nRounds < 1 \<and> length chSalt = 8 \<and> nDerivationMethod \<noteq> 0 \<longrightarrow>
        SetKeyFromPassphrase sha c strKeyData chSalt nRounds nDerivationMethod =
          (False, c\<lparr>vchKey := replicate (length (vchKey c)) 0,
                       vchIV := replicate (length (vchIV c)) 0\<rparr>))"
  unfolding SetKeyFromPassphrase_def
  by (auto simp: memory_cleanse_def Let_def split_beta dest!: KDF_succeeds)

theorem SetKeyFromPassphrase_failure_witness:
  "((0::32 word) < 1 \<or> length (replicate 8 (0::byte)) \<noteq> 8)
   \<and> SetKeyFromPassphrase demo_sha CCrypter_init (bytes_of ''test'') (replicate 8 0) 0 0
       = (False, CCrypter_init)
   \<and> (\<not> (1::32 word) < 1 \<and> length (replicate 8 (0::byte)) = 8 \<and> (1::32 word) \<noteq> 0)
   \<and> SetKeyFromPassphrase demo_sha demo_keyed_crypter (bytes_of ''test'') (replicate 8 0) 1 1
       = (False, demo_keyed_crypter\<lparr>vchKey := replicate 32 0, vchIV := replicate 16 0\<rparr>)"
  using SetKeyFromPassphrase_failure [of demo_sha CCrypter_init "bytes_of ''test''" "replicate 8 0" 0 0]
    SetKeyFromPassphrase_failure [of demo_sha demo_keyed_crypter "bytes_of ''test''" "replicate 8 0" 1 1]
  by (simp add: demo_keyed_crypter_def SetKey_def CCrypter_init_def memcpy_def)

text \<open>
  Claim C9 as stated fails: on a crypter that holds a key, a call with 0 rounds returns
  false and the key buffer still holds the key, with \<open>fKeySet\<close> true.
\<close>

theorem SetKeyFromPassphrase_keeps_old_key:
  "SetKeyFromPassphrase demo_sha demo_keyed_crypter (bytes_of ''test'') (replicate 8 0) 0 0
     = (False, demo_keyed_crypter)
   \<and> fKeySet demo_keyed_crypter
   \<and> vchKey demo_keyed_crypter = replicate 32 1
   \<and> vchKey demo_keyed_crypter \<noteq> replicate 32 0"
  by (simp add: SetKeyFromPassphrase_def demo_keyed_crypter_def SetKey_def CCrypter_init_def memcpy_def)

subsection \<open>Encrypt and Decrypt\<close>

lemma xor_cancel: "length a = length b \<Longrightarrow> map2 (XOR) a (map2 (XOR) a b) = (b :: bytes)"
  by (induction a b rule: list_induct2) simp_all

lemma cbc_roundtrip:
  "block_cipher E D \<Longrightarrow> length prev = 16 \<Longrightarrow> 16 dvd length data \<Longrightarrow>
     CBC_decrypt_blocks D key prev (CBC_encrypt_blocks E key prev data) = data
     \<and> length (CBC_encrypt_blocks E key prev data) = length data"
proof (induction E key prev data rule: CBC_encrypt_blocks.induct)
  case (1 E key prev data)
  show ?case
  proof (cases "data = []")
    case True
    then show ?thesis
      by (simp add: CBC_encrypt_blocks.simps CBC_decrypt_blocks.simps)
  next
    case False
    define blk where "blk = take 16 data"
    define c where "c = E key (map2 (XOR) prev blk)"
    from False "1.prems" have len: "16 \<le> length data" by (auto dest: dvd_imp_le)
    then have lblk: "length blk = 16" by (simp add: blk_def)
    with "1.prems" have lx: "length (map2 (XOR) prev blk) = 16" by simp
    with "1.prems" have lc: "length c = 16" and dc: "D key c = map2 (XOR) prev blk"
      by (simp_all add: block_cipher_def c_def)
    have dv: "16 dvd length (drop 16 data)" using "1.prems" len by simp
    have IH: "CBC_decrypt_blocks D key c (CBC_encrypt_blocks E key c (drop 16 data)) = drop 16 data
       \<and> length (CBC_encrypt_blocks E key c (drop 16 data)) = length (drop 16 data)"
      using "1.IH" [OF False c_def [unfolded blk_def] "1.prems"(1) lc dv] .
    have enc: "CBC_encrypt_blocks E key prev data = c @ CBC_encrypt_blocks E key c (drop 16 data)"
      using False by (subst CBC_encrypt_blocks.simps) (simp add: c_def blk_def Let_def)
    have cne: "c \<noteq> []" using lc by auto
    have "CBC_decrypt_blocks D key prev (c @ CBC_encrypt_blocks E key c (drop 16 data))
          = map2 (XOR) prev (D key c) @ CBC_decrypt_blocks D key c (CBC_encrypt_blocks E key c (drop 16 data))"
      using cne lc by (subst CBC_decrypt_blocks.simps) simp
    also have "\<dots> = blk @ drop 16 data"
      using IH dc xor_cancel [of prev blk] "1.prems" lblk by simp
    also have "\<dots> = data" by (simp add: blk_def)
    finally show ?thesis using enc IH lc len by simp
  qed
qed

lemma pad_arith: "(n::nat) + (16 - n mod 16) = 16 * (n div 16 + 1)" "n < 16 * (n div 16 + 1)"
  by presburger+

lemma PKCS7_pad_length: "length (PKCS7_pad X) = 16 * (length X div 16 + 1)"
  by (simp add: PKCS7_pad_def Let_def pad_arith)

lemma unat_padsize: "p \<le> 16 \<Longrightarrow> unat (of_nat p :: byte) = p"
  by (simp add: unat_of_nat take_bit_nat_eq_self)

lemma AES256CBC_roundtrip:
  assumes bc: "block_cipher E D" and liv: "length iv = 16" and ne: "X \<noteq> []"
  shows "AES256CBCDecrypt D key iv (AES256CBCEncrypt E key iv X) = X"
    and "length (AES256CBCEncrypt E key iv X) = 16 * (length X div 16 + 1)"
proof -
  define p where "p = 16 - length X mod 16"
  have p: "1 \<le> p" "p \<le> 16" by (simp_all add: p_def)
  have pd: "PKCS7_pad X = X @ replicate p (of_nat p)" by (simp add: PKCS7_pad_def p_def)
  have lpd: "length (PKCS7_pad X) = 16 * (length X div 16 + 1)" by (rule PKCS7_pad_length)
  then have dv: "16 dvd length (PKCS7_pad X)" by simp
  note rt = cbc_roundtrip [OF bc liv dv, of key]
  have enc: "AES256CBCEncrypt E key iv X = CBC_encrypt_blocks E key iv (PKCS7_pad X)"
    using ne by (simp add: AES256CBCEncrypt_def)
  from rt lpd show len: "length (AES256CBCEncrypt E key iv X) = 16 * (length X div 16 + 1)"
    by (simp add: enc)
  then have ne': "AES256CBCEncrypt E key iv X \<noteq> []" "length (AES256CBCEncrypt E key iv X) mod 16 = 0"
    by auto
  have out: "CBC_decrypt_blocks D key iv (AES256CBCEncrypt E key iv X) = X @ replicate p (of_nat p)"
    using rt pd by (simp add: enc)
  have lst: "last (X @ replicate p (of_nat p :: byte)) = of_nat p" using p by simp
  show "AES256CBCDecrypt D key iv (AES256CBCEncrypt E key iv X) = X"
    unfolding AES256CBCDecrypt_def Let_def out lst
    using ne' p by (simp add: unat_padsize)
qed

lemma AES256CBC_empty:
  "AES256CBCEncrypt E key iv [] = []" "AES256CBCDecrypt D key iv [] = []"
  by (simp_all add: AES256CBCEncrypt_def AES256CBCDecrypt_def)

lemma demo_block_cipher: "block_cipher demo_E demo_D"
  by (simp add: block_cipher_def demo_E_def demo_D_def comp_def)

lemma demo_primitives_ok: "primitives_ok demo_P"
  using demo_block_cipher by (auto simp: primitives_ok_def demo_P_def)




subsection \<open>std::map and SetCrypted\<close>

lemma SetCrypted_crypted: "fUseCrypto st \<Longrightarrow> SetCrypted st = (True, st)"
  by (simp add: SetCrypted_def)

lemma map_of_map_assign: "map_of (map_assign k v m) = (map_of m)(k \<mapsto> v)"
  by (induction m) (auto simp: fun_eq_iff)

lemma set_map_assign: "set (map_assign k v m) \<subseteq> insert (k, v) (set m)"
  by (induction m) (auto split: if_splits)

lemma map_assign_not_Nil: "map_assign k v m \<noteq> []"
  by (cases m) (auto split: if_splits)

lemma sorted_lt_distinct: "sorted_wrt (<) (xs :: 'a::linorder list) \<Longrightarrow> distinct xs"
  by (simp add: strict_sorted_iff)

lemma sorted_map_assign:
  "sorted_wrt (<) (map fst m) \<Longrightarrow> sorted_wrt (<) (map fst (map_assign k v m))"
proof (induction m)
  case Nil
  then show ?case by simp
next
  case (Cons e m)
  obtain k' v' where e: "e = (k', v')" by (cases e)
  from Cons.prems have tl: "sorted_wrt (<) (map fst m)" and hd: "\<forall>x\<in>set m. k' < fst x"
    by (auto simp: e)
  show ?case
  proof (cases "k < k'")
    case True
    with Cons.prems show ?thesis by (auto simp: e)
  next
    case False
    show ?thesis
    proof (cases "k = k'")
      case True
      with Cons.prems show ?thesis by (auto simp: e)
    next
      case ne: False
      with False have lt: "k' < k" by auto
      have "\<forall>x\<in>set (map_assign k v m). k' < fst x"
      proof
        fix x assume "x \<in> set (map_assign k v m)"
        then have "x = (k, v) \<or> x \<in> set m" using set_map_assign [of k v m] by auto
        then show "k' < fst x" using hd lt by auto
      qed
      with Cons.IH [OF tl] False ne show ?thesis by (simp add: e)
    qed
  qed
qed

subsection \<open>Unlock\<close>

lemma DecryptSecret_bad_master: "length m \<noteq> 32 \<Longrightarrow> DecryptSecret P m ct iv = None"
  by (simp add: DecryptSecret_def SetKey_def Let_def)

lemma EncryptSecret_bad_master: "length m \<noteq> 32 \<Longrightarrow> EncryptSecret P m pt iv = None"
  by (simp add: EncryptSecret_def SetKey_def Let_def)

lemma DecryptKey_bad_master: "length m \<noteq> 32 \<Longrightarrow> DecryptKey P m ct pub = None"
  by (simp add: DecryptKey_def DecryptSecret_bad_master)

lemma Unlock_loop_inspected:
  "Unlock_loop P m chk es kp =
     (kp \<or> (\<exists>(a, pub, ct) \<in> set (Unlock_inspected P m chk es). DecryptKey P m ct pub \<noteq> None),
      (\<exists>(a, pub, ct) \<in> set (Unlock_inspected P m chk es). DecryptKey P m ct pub = None))"
proof (induction es arbitrary: kp)
  case Nil
  then show ?case by simp
next
  case (Cons e es)
  obtain a pub ct where e: "e = (a, pub, ct)" by (cases e)
  show ?case
  proof (cases "DecryptKey P m ct pub = None")
    case True
    then show ?thesis by (simp add: e)
  next
    case False
    then show ?thesis using Cons.IH [of True] by (cases chk) (auto simp: e)
  qed
qed

lemma Unlock_inspected_prefix: "\<exists>rest. es = Unlock_inspected P m chk es @ rest"
proof (induction es)
  case Nil
  then show ?case by simp
next
  case (Cons e es)
  obtain a pub ct where e: "e = (a, pub, ct)" by (cases e)
  from Cons.IH show ?case by (auto simp: e)
qed

lemma Unlock_inspected_Nil: "Unlock_inspected P m chk es = [] \<longleftrightarrow> es = []"
  by (cases es) (auto split: if_splits)

lemma Unlock_unfold:
  "fUseCrypto st \<Longrightarrow>
     Unlock P st m =
       (let inspected = Unlock_inspected P m (fDecryptionThoroughlyChecked st) (mapCryptedKeys st);
            keyPass = (\<exists>(a, pub, ct) \<in> set inspected. DecryptKey P m ct pub \<noteq> None);
            keyFail = (\<exists>(a, pub, ct) \<in> set inspected. DecryptKey P m ct pub = None)
        in if keyPass \<and> keyFail then AssertionFailure
           else if keyFail \<or> \<not> keyPass then Returns (False, st)
           else Returns (True, st\<lparr>vMasterKey := m, fDecryptionThoroughlyChecked := True\<rparr>))"
  by (simp add: Unlock_def SetCrypted_crypted Unlock_loop_inspected Let_def)

lemma Unlock_inspected_eq:
  "Unlock_inspected P m chk es =
     (if chk then take 1 es
      else takeWhile (\<lambda>(a, pub, ct). DecryptKey P m ct pub \<noteq> None) es
           @ take 1 (dropWhile (\<lambda>(a, pub, ct). DecryptKey P m ct pub \<noteq> None) es))"
proof (induction es)
  case Nil
  then show ?case by simp
next
  case (Cons e es)
  obtain a pub ct where e: "e = (a, pub, ct)" by (cases e)
  from Cons.IH show ?case by (auto simp: e)
qed

text \<open>
  Claim C1. On a store with \<open>fUseCrypto\<close> set, \<open>Unlock\<close> walks \<open>mapCryptedKeys\<close> in
  order. The entries it inspects are the first entry alone when
  \<open>fDecryptionThoroughlyChecked\<close> is set, and otherwise the leading entries that
  \<open>DecryptKey\<close> accepts followed by the first one it rejects, if there is one. If among
  the inspected entries one is accepted and one rejected, the process stops in the
  assertion. Otherwise, if one is rejected or none is accepted, \<open>Unlock\<close> returns false
  and the store, the master key included, is unchanged. Otherwise, every inspected entry
  being accepted and there being one, it returns true with \<open>vMasterKey\<close> set to the key
  given and \<open>fDecryptionThoroughlyChecked\<close> set.
\<close>

theorem Unlock_outcome:
  "fUseCrypto st \<Longrightarrow>
     (let inspected = Unlock_inspected P m (fDecryptionThoroughlyChecked st) (mapCryptedKeys st);
          keyPass = (\<exists>(a, pub, ct) \<in> set inspected. DecryptKey P m ct pub \<noteq> None);
          keyFail = (\<exists>(a, pub, ct) \<in> set inspected. DecryptKey P m ct pub = None)
      in inspected =
           (if fDecryptionThoroughlyChecked st then take 1 (mapCryptedKeys st)
            else takeWhile (\<lambda>(a, pub, ct). DecryptKey P m ct pub \<noteq> None) (mapCryptedKeys st)
                 @ take 1 (dropWhile (\<lambda>(a, pub, ct). DecryptKey P m ct pub \<noteq> None)
                             (mapCryptedKeys st)))
         \<and> Unlock P st m =
             (if keyPass \<and> keyFail then AssertionFailure
              else if keyFail \<or> \<not> keyPass then Returns (False, st)
              else Returns (True, st\<lparr>vMasterKey := m, fDecryptionThoroughlyChecked := True\<rparr>)))"
proof -
  assume u: "fUseCrypto st"
  show ?thesis
    unfolding Let_def
  proof (rule conjI)
    show "Unlock_inspected P m (fDecryptionThoroughlyChecked st) (mapCryptedKeys st) =
        (if fDecryptionThoroughlyChecked st then take 1 (mapCryptedKeys st)
         else takeWhile (\<lambda>(a, pub, ct). DecryptKey P m ct pub \<noteq> None) (mapCryptedKeys st)
              @ take 1 (dropWhile (\<lambda>(a, pub, ct). DecryptKey P m ct pub \<noteq> None)
                          (mapCryptedKeys st)))"
      by (rule Unlock_inspected_eq)
  next
    show "Unlock P st m =
        (if (\<exists>(a, pub, ct) \<in> set (Unlock_inspected P m (fDecryptionThoroughlyChecked st)
                (mapCryptedKeys st)). DecryptKey P m ct pub \<noteq> None)
            \<and> (\<exists>(a, pub, ct) \<in> set (Unlock_inspected P m (fDecryptionThoroughlyChecked st)
                (mapCryptedKeys st)). DecryptKey P m ct pub = None)
         then AssertionFailure
         else if (\<exists>(a, pub, ct) \<in> set (Unlock_inspected P m (fDecryptionThoroughlyChecked st)
                (mapCryptedKeys st)). DecryptKey P m ct pub = None)
              \<or> \<not> (\<exists>(a, pub, ct) \<in> set (Unlock_inspected P m (fDecryptionThoroughlyChecked st)
                (mapCryptedKeys st)). DecryptKey P m ct pub \<noteq> None)
         then Returns (False, st)
         else Returns (True, st\<lparr>vMasterKey := m, fDecryptionThoroughlyChecked := True\<rparr>))"
      using Unlock_unfold [OF u, of P m] unfolding Let_def .
  qed
qed

theorem Unlock_outcome_witness:
  "fUseCrypto demo_crypted
   \<and> Unlock demo_P demo_crypted demo_master = Returns (True, demo_unlocked)
   \<and> fUseCrypto demo_tampered
   \<and> Unlock demo_P demo_tampered demo_master = AssertionFailure"
proof -
  have c: "fUseCrypto demo_crypted" and t: "fUseCrypto demo_tampered" by code_simp+
  have kp: "(\<exists>(a, pub, ct) \<in> set (Unlock_inspected demo_P demo_master
                (fDecryptionThoroughlyChecked demo_crypted) (mapCryptedKeys demo_crypted)).
              DecryptKey demo_P demo_master ct pub \<noteq> None) = True"
    and kf: "(\<exists>(a, pub, ct) \<in> set (Unlock_inspected demo_P demo_master
                (fDecryptionThoroughlyChecked demo_crypted) (mapCryptedKeys demo_crypted)).
              DecryptKey demo_P demo_master ct pub = None) = False"
    and tp: "(\<exists>(a, pub, ct) \<in> set (Unlock_inspected demo_P demo_master
                (fDecryptionThoroughlyChecked demo_tampered) (mapCryptedKeys demo_tampered)).
              DecryptKey demo_P demo_master ct pub \<noteq> None) = True"
    and tf: "(\<exists>(a, pub, ct) \<in> set (Unlock_inspected demo_P demo_master
                (fDecryptionThoroughlyChecked demo_tampered) (mapCryptedKeys demo_tampered)).
              DecryptKey demo_P demo_master ct pub = None) = True"
    by code_simp+
  from Unlock_outcome [OF c, of demo_P demo_master] Unlock_outcome [OF t, of demo_P demo_master]
  show ?thesis
    unfolding Let_def kp kf tp tf using c t by (simp add: demo_unlocked_def)
qed

subsection \<open>Secrets under a master key\<close>

lemma Unlock_inspected_subset: "set (Unlock_inspected P m chk es) \<subseteq> set es"
proof -
  obtain rest where "es = Unlock_inspected P m chk es @ rest"
    using Unlock_inspected_prefix [of es P m chk] by blast
  then have "set es = set (Unlock_inspected P m chk es) \<union> set rest"
    by (metis set_append)
  then show ?thesis by blast
qed

lemma Unlock_all_good:
  assumes "fUseCrypto st" and "mapCryptedKeys st \<noteq> []"
    and good: "\<forall>(a, pub, ct) \<in> set (mapCryptedKeys st). DecryptKey P m ct pub \<noteq> None"
  shows "Unlock P st m = Returns (True, st\<lparr>vMasterKey := m, fDecryptionThoroughlyChecked := True\<rparr>)"
proof -
  define ins where "ins = Unlock_inspected P m (fDecryptionThoroughlyChecked st) (mapCryptedKeys st)"
  have ne: "ins \<noteq> []" using assms(2) by (simp add: ins_def Unlock_inspected_Nil)
  have sub: "set ins \<subseteq> set (mapCryptedKeys st)" by (simp add: ins_def Unlock_inspected_subset)
  have allg: "\<forall>(a, pub, ct) \<in> set ins. DecryptKey P m ct pub \<noteq> None" using good sub by auto
  then have nf: "\<not> (\<exists>(a, pub, ct) \<in> set ins. DecryptKey P m ct pub = None)" by auto
  from ne obtain a pub ct where "(a, pub, ct) \<in> set ins" by (cases ins) auto
  with allg have ps: "\<exists>(a, pub, ct) \<in> set ins. DecryptKey P m ct pub \<noteq> None" by fastforce
  show ?thesis
    using Unlock_unfold [OF assms(1), of P m] nf ps unfolding Let_def ins_def [symmetric] by simp
qed

lemma Unlock_all_bad:
  assumes "fUseCrypto st"
    and bad: "\<forall>(a, pub, ct) \<in> set (mapCryptedKeys st). DecryptKey P m ct pub = None"
  shows "Unlock P st m = Returns (False, st)"
proof -
  define ins where "ins = Unlock_inspected P m (fDecryptionThoroughlyChecked st) (mapCryptedKeys st)"
  have sub: "set ins \<subseteq> set (mapCryptedKeys st)" by (simp add: ins_def Unlock_inspected_subset)
  have "\<forall>(a, pub, ct) \<in> set ins. DecryptKey P m ct pub = None" using bad sub by auto
  then have np: "\<not> (\<exists>(a, pub, ct) \<in> set ins. DecryptKey P m ct pub \<noteq> None)" by auto
  show ?thesis
    using Unlock_unfold [OF assms(1), of P m] np unfolding Let_def ins_def [symmetric] by simp
qed

lemma SetKey_init:
  "length K = 32 \<Longrightarrow> length V = 16 \<Longrightarrow>
     SetKey CCrypter_init K V = (True, \<lparr>vchKey = K, vchIV = V, fKeySet = True\<rparr>)"
  by (simp add: SetKey_def CCrypter_init_def memcpy_def)

lemma Encrypt_keyed:
  assumes "block_cipher E D" and "length V = 16"
  shows "Encrypt E \<lparr>vchKey = K, vchIV = V, fKeySet = True\<rparr> X = Some (AES256CBCEncrypt E K V X)"
proof (cases "X = []")
  case True
  then show ?thesis by (simp add: Encrypt_def Let_def AES256CBC_empty)
next
  case False
  from AES256CBC_roundtrip(2) [OF assms False, of K] pad_arith(2) [of "length X"]
  show ?thesis by (simp add: Encrypt_def Let_def)
qed

lemma Decrypt_keyed:
  assumes "block_cipher E D" and "length V = 16"
  shows "Decrypt D \<lparr>vchKey = K, vchIV = V, fKeySet = True\<rparr> (AES256CBCEncrypt E K V X)
           = (if X = [] then None else Some X)"
proof (cases "X = []")
  case True
  then show ?thesis by (simp add: Decrypt_def Let_def AES256CBC_empty)
next
  case False
  from AES256CBC_roundtrip(1) [OF assms False, of K]
  show ?thesis using False by (simp add: Decrypt_def Let_def)
qed

lemma EncryptSecret_Some:
  assumes "block_cipher (AES256Encrypt P) (AES256Decrypt P)" and "length m = 32" and "16 \<le> length iv"
  shows "EncryptSecret P m X iv = Some (AES256CBCEncrypt (AES256Encrypt P) m (take 16 iv) X)"
proof -
  have l: "length (take 16 iv) = 16" using assms(3) by simp
  show ?thesis
    using SetKey_init [OF assms(2) l] Encrypt_keyed [OF assms(1) l, of m X]
    by (simp add: EncryptSecret_def memcpy_def Let_def)
qed

lemma DecryptSecret_EncryptSecret:
  assumes "block_cipher (AES256Encrypt P) (AES256Decrypt P)" and "16 \<le> length iv"
    and "EncryptSecret P m X iv = Some ct"
  shows "DecryptSecret P m ct iv = (if X = [] then None else Some X)"
proof -
  have lm: "length m = 32" using assms(3) EncryptSecret_bad_master [of m P X iv] by auto
  have l: "length (take 16 iv) = 16" using assms(2) by simp
  have ct: "ct = AES256CBCEncrypt (AES256Encrypt P) m (take 16 iv) X"
    using EncryptSecret_Some [OF assms(1) lm assms(2), of X] assms(3) by simp
  show ?thesis
    using SetKey_init [OF lm l] Decrypt_keyed [OF assms(1) l, of m X]
    by (simp add: DecryptSecret_def memcpy_def Let_def ct)
qed

lemma DecryptKey_EncryptSecret:
  assumes ok: "primitives_ok P" and v: "valid_key key"
    and enc: "EncryptSecret P m (keydata key) (CPubKey_GetHash P (CKey_GetPubKey P key)) = Some ct"
  shows "DecryptKey P m ct (CKey_GetPubKey P key) = Some key"
proof -
  from ok have bc: "block_cipher (AES256Encrypt P) (AES256Decrypt P)"
    and h: "16 \<le> length (CPubKey_GetHash P (CKey_GetPubKey P key))"
    and c: "CPubKey_IsCompressed P (CKey_GetPubKey P key) = fCompressed key"
    by (simp_all add: primitives_ok_def)
  from v have ne: "keydata key \<noteq> []" and l: "length (keydata key) = 32"
    by (auto simp: valid_key_def)
  have "DecryptSecret P m ct (CPubKey_GetHash P (CKey_GetPubKey P key)) = Some (keydata key)"
    using DecryptSecret_EncryptSecret [OF bc h enc] ne by simp
  moreover have "CKey_Set (keydata key) (fCompressed key) = key"
    by (cases key) (simp add: CKey_Set_def)
  ultimately show ?thesis
    by (simp add: DecryptKey_def l c VerifyPubKey_def Let_def)
qed

lemma AddCryptedKey_crypted:
  "fUseCrypto st \<Longrightarrow>
     AddCryptedKey P st pub ct =
       (True, st\<lparr>mapCryptedKeys := map_assign (CPubKey_GetID P pub) (pub, ct) (mapCryptedKeys st)\<rparr>)"
  by (simp add: AddCryptedKey_def SetCrypted_crypted)

text \<open>
  Claim C5. With primitives as described by \<open>primitives_ok\<close>, a valid private key and
  the public key derived from it, on a store with \<open>fUseCrypto\<close> set: when the master key
  held has 32 bytes, \<open>AddKeyPubKey\<close> returns true; and whenever it returns true (it does
  so only when the store is unlocked), \<open>GetKey\<close> on the resulting store, at the
  identifier of the public key, returns the private key.
\<close>

theorem AddKeyPubKey_GetKey:
  assumes ok: "primitives_ok P" and v: "valid_key priv" and pub: "pub = CKey_GetPubKey P priv"
    and cr: "fUseCrypto st"
  shows "(length (vMasterKey st) = 32 \<longrightarrow> fst (AddKeyPubKey P st priv pub))
    \<and> (AddKeyPubKey P st priv pub = (True, st') \<longrightarrow>
         GetKey P st' (CPubKey_GetID P pub) = Some priv)"
proof (intro conjI impI)
  assume l: "length (vMasterKey st) = 32"
  then have ne: "vMasterKey st \<noteq> []" by auto
  from ok have bc: "block_cipher (AES256Encrypt P) (AES256Decrypt P)"
    and h: "16 \<le> length (CPubKey_GetHash P pub)"
    by (simp_all add: primitives_ok_def)
  show "fst (AddKeyPubKey P st priv pub)"
    using cr ne EncryptSecret_Some [OF bc l h, of "keydata priv"]
    by (simp add: AddKeyPubKey_def IsCrypted_def IsLocked_def AddCryptedKey_crypted)
next
  assume add: "AddKeyPubKey P st priv pub = (True, st')"
  from add cr obtain ct where
    enc: "EncryptSecret P (vMasterKey st) (keydata priv) (CPubKey_GetHash P pub) = Some ct"
    and st': "st' = st\<lparr>mapCryptedKeys := map_assign (CPubKey_GetID P pub) (pub, ct) (mapCryptedKeys st)\<rparr>"
    by (auto simp: AddKeyPubKey_def IsCrypted_def AddCryptedKey_crypted
        split: if_splits option.splits)
  have dk: "DecryptKey P (vMasterKey st) ct pub = Some priv"
    using DecryptKey_EncryptSecret [OF ok v] enc by (simp add: pub)
  show "GetKey P st' (CPubKey_GetID P pub) = Some priv"
    using cr dk by (simp add: GetKey_def IsCrypted_def st' map_of_map_assign)
qed

theorem AddKeyPubKey_GetKey_witness:
  "primitives_ok demo_P \<and> valid_key demo_key3 \<and> demo_pub3 = CKey_GetPubKey demo_P demo_key3
   \<and> fUseCrypto demo_unlocked \<and> length (vMasterKey demo_unlocked) = 32
   \<and> fst (AddKeyPubKey demo_P demo_unlocked demo_key3 demo_pub3)
   \<and> GetKey demo_P (snd (AddKeyPubKey demo_P demo_unlocked demo_key3 demo_pub3))
        (CPubKey_GetID demo_P demo_pub3) = Some demo_key3"
proof -
  have v: "valid_key demo_key3" and u: "fUseCrypto demo_unlocked"
    and l: "length (vMasterKey demo_unlocked) = 32"
    by code_simp+
  note t = AddKeyPubKey_GetKey [OF demo_primitives_ok v demo_pub3_def u,
      of "snd (AddKeyPubKey demo_P demo_unlocked demo_key3 demo_pub3)"]
  from t l have f: "fst (AddKeyPubKey demo_P demo_unlocked demo_key3 demo_pub3)" by blast
  then have a: "AddKeyPubKey demo_P demo_unlocked demo_key3 demo_pub3
      = (True, snd (AddKeyPubKey demo_P demo_unlocked demo_key3 demo_pub3))"
    by (simp add: prod_eq_iff)
  with t have "GetKey demo_P (snd (AddKeyPubKey demo_P demo_unlocked demo_key3 demo_pub3))
        (CPubKey_GetID demo_P demo_pub3) = Some demo_key3" by blast
  then show ?thesis using demo_primitives_ok v u l f by (simp add: demo_pub3_def)
qed

subsection \<open>EncryptKeys and Lock\<close>

lemma Lock_crypted: "fUseCrypto st \<Longrightarrow> Lock st = (True, st\<lparr>vMasterKey := []\<rparr>)"
  by (simp add: Lock_def SetCrypted_crypted)

lemma EncryptKeys_loop_fields:
  "fUseCrypto st \<Longrightarrow>
     fUseCrypto (snd (EncryptKeys_loop P m keys st))
     \<and> mapKeys (snd (EncryptKeys_loop P m keys st)) = mapKeys st"
proof (induction keys arbitrary: st)
  case Nil
  then show ?case by simp
next
  case (Cons e keys)
  obtain a key where e: "e = (a, key)" by (cases e)
  show ?case
  proof (cases "EncryptSecret P m (keydata key) (CPubKey_GetHash P (CKey_GetPubKey P key))")
    case None
    with Cons.prems show ?thesis by (simp add: e Let_def)
  next
    case (Some ct)
    define st1 where "st1 = st\<lparr>mapCryptedKeys :=
       map_assign (CPubKey_GetID P (CKey_GetPubKey P key)) (CKey_GetPubKey P key, ct) (mapCryptedKeys st)\<rparr>"
    have u: "fUseCrypto st1" and k: "mapKeys st1 = mapKeys st"
      using Cons.prems by (simp_all add: st1_def)
    have "EncryptKeys_loop P m (e # keys) st = EncryptKeys_loop P m keys st1"
      using Some Cons.prems by (simp add: e Let_def AddCryptedKey_crypted st1_def)
    with Cons.IH [OF u] k show ?thesis by simp
  qed
qed

lemma EncryptKeys_loop_good:
  assumes ok: "primitives_ok P"
  shows "fUseCrypto st \<Longrightarrow> \<forall>(a, k) \<in> set keys. valid_key k \<Longrightarrow>
     \<forall>(a, pub, ct) \<in> set (mapCryptedKeys st). DecryptKey P m ct pub \<noteq> None \<Longrightarrow>
     EncryptKeys_loop P m keys st = (True, st') \<Longrightarrow>
     (\<forall>(a, pub, ct) \<in> set (mapCryptedKeys st'). DecryptKey P m ct pub \<noteq> None)
     \<and> (keys \<noteq> [] \<or> mapCryptedKeys st \<noteq> [] \<longrightarrow> mapCryptedKeys st' \<noteq> [])"
proof (induction keys arbitrary: st)
  case Nil
  then show ?case by simp
next
  case (Cons e keys)
  obtain a key where e: "e = (a, key)" by (cases e)
  define pub where "pub = CKey_GetPubKey P key"
  from Cons.prems(2) have v: "valid_key key" and vs: "\<forall>(a, k) \<in> set keys. valid_key k"
    by (auto simp: e)
  from Cons.prems(4) obtain ct where
    enc: "EncryptSecret P m (keydata key) (CPubKey_GetHash P pub) = Some ct"
    by (auto simp: e Let_def pub_def split: option.splits)
  define st1 where "st1 = st\<lparr>mapCryptedKeys :=
       map_assign (CPubKey_GetID P pub) (pub, ct) (mapCryptedKeys st)\<rparr>"
  have u: "fUseCrypto st1" using Cons.prems(1) by (simp add: st1_def)
  have m1: "mapCryptedKeys st1 = map_assign (CPubKey_GetID P pub) (pub, ct) (mapCryptedKeys st)"
    by (simp add: st1_def)
  have loop: "EncryptKeys_loop P m keys st1 = (True, st')"
    using Cons.prems(1,4) enc
    by (simp add: e Let_def AddCryptedKey_crypted st1_def pub_def)
  have dk: "DecryptKey P m ct pub \<noteq> None"
    using DecryptKey_EncryptSecret [OF ok v, of m ct] enc by (simp add: pub_def)
  have g1: "\<forall>(a, pub, ct) \<in> set (mapCryptedKeys st1). DecryptKey P m ct pub \<noteq> None"
    using Cons.prems(3) dk set_map_assign [of "CPubKey_GetID P pub" "(pub, ct)" "mapCryptedKeys st"]
    unfolding m1 by auto
  have ne1: "mapCryptedKeys st1 \<noteq> []" by (simp add: m1 map_assign_not_Nil)
  from Cons.IH [OF u vs g1 loop] ne1 show ?case by simp
qed

lemma EncryptKeys_success:
  assumes "EncryptKeys P st0 m = (True, st1)"
  shows "fUseCrypto st1" and "mapCryptedKeys st0 = []" and "\<not> fUseCrypto st0"
    and "\<exists>stl. EncryptKeys_loop P m (mapKeys st0) (st0\<lparr>fUseCrypto := True\<rparr>) = (True, stl)
           \<and> st1 = stl\<lparr>mapKeys := []\<rparr>"
proof -
  from assms show pre: "mapCryptedKeys st0 = []" "\<not> fUseCrypto st0"
    by (auto simp: EncryptKeys_def IsCrypted_def split: if_splits)
  with assms show ex: "\<exists>stl. EncryptKeys_loop P m (mapKeys st0) (st0\<lparr>fUseCrypto := True\<rparr>) = (True, stl)
           \<and> st1 = stl\<lparr>mapKeys := []\<rparr>"
    by (auto simp: EncryptKeys_def IsCrypted_def split: prod.splits bool.splits)
  then obtain stl where l: "EncryptKeys_loop P m (mapKeys st0) (st0\<lparr>fUseCrypto := True\<rparr>) = (True, stl)"
    and s: "st1 = stl\<lparr>mapKeys := []\<rparr>" by blast
  have "fUseCrypto (snd (EncryptKeys_loop P m (mapKeys st0) (st0\<lparr>fUseCrypto := True\<rparr>)))"
    using EncryptKeys_loop_fields [of "st0\<lparr>fUseCrypto := True\<rparr>" P m "mapKeys st0"] by simp
  then show "fUseCrypto st1" by (simp add: l s)
qed

subsection \<open>GetPaperKey on a locked store\<close>

text \<open>
  Claim C8, amended. On a store with \<open>fUseCrypto\<close> set and an empty master key,
  \<open>GetPaperKey\<close> fails when no plaintext copy is cached in \<open>paperKey\<close>; when one is
  cached, it returns that copy. \<open>Lock\<close> on a store with \<open>fUseCrypto\<close> set succeeds and
  leaves the store locked with the cache as it was, so the same holds after it.
\<close>

theorem GetPaperKey_locked:
  "fUseCrypto st \<Longrightarrow>
     (vMasterKey st = [] \<longrightarrow>
        GetPaperKey P st = (if paperKey st = [] then None else Some (paperKey st)))
     \<and> fst (Lock st) \<and> IsLocked (snd (Lock st))
     \<and> GetPaperKey P (snd (Lock st)) = (if paperKey st = [] then None else Some (paperKey st))"
  by (simp add: Lock_crypted IsLocked_def GetPaperKey_def IsCrypted_def
      CBasicKeyStore_GetPaperKey_def DecryptSecret_bad_master)

theorem GetPaperKey_locked_witness:
  "fUseCrypto demo_crypted \<and> vMasterKey demo_crypted = []
   \<and> paperKey demo_crypted = []
   \<and> GetPaperKey demo_P demo_crypted = None
   \<and> fUseCrypto demo_unlocked
   \<and> GetPaperKey demo_P (snd (Lock demo_unlocked)) = None"
proof -
  have c: "fUseCrypto demo_crypted" and m: "vMasterKey demo_crypted = []"
    and p: "paperKey demo_crypted = []"
    and u: "fUseCrypto demo_unlocked" and q: "paperKey demo_unlocked = []"
    by code_simp+
  from GetPaperKey_locked [OF c, of demo_P] GetPaperKey_locked [OF u, of demo_P]
  show ?thesis using c m p u q by simp
qed

text \<open>
  Claim C8 as stated fails: add a key, encrypt, unlock, add a paper key, call
  \<open>DecryptPaperKey\<close>, which caches the plaintext, and lock. The store is locked and
  \<open>GetPaperKey\<close> returns the paper key.
\<close>

theorem GetPaperKey_locked_returns_cached:
  "run demo_P demo_ops_paper demo_init \<noteq> None
   \<and> fUseCrypto (the (run demo_P demo_ops_paper demo_init))
   \<and> vMasterKey (the (run demo_P demo_ops_paper demo_init)) = []
   \<and> IsLocked (the (run demo_P demo_ops_paper demo_init))
   \<and> GetPaperKey demo_P (the (run demo_P demo_ops_paper demo_init)) = Some (bytes_of ''abc'')"
  by code_simp

subsection \<open>Invariants of runs\<close>

lemma Unlock_cases:
  "Unlock P st m = AssertionFailure
   \<or> Unlock P st m = Returns (False, snd (SetCrypted st))
   \<or> Unlock P st m = Returns (True, (snd (SetCrypted st))
        \<lparr>vMasterKey := m, fDecryptionThoroughlyChecked := True\<rparr>)"
  by (auto simp: Unlock_def Let_def split: prod.splits bool.splits)

text \<open>What a step does to \<open>fUseCrypto\<close> and \<open>mapKeys\<close>.\<close>

lemma step_crypted:
  assumes "fUseCrypto st" and "step P op st = Some st'"
  shows "fUseCrypto st' \<and> mapKeys st' = mapKeys st"
proof (cases op)
  case OpSetCrypted
  with assms show ?thesis by (auto simp: SetCrypted_def)
next
  case OpLock
  with assms show ?thesis by (auto simp: Lock_crypted)
next
  case (OpUnlock m)
  with assms Unlock_cases [of P st m] show ?thesis
    by (auto simp: SetCrypted_crypted split: outcome.splits)
next
  case (OpAddCryptedPaperKey v)
  with assms show ?thesis by (auto simp: AddCryptedPaperKey_def SetCrypted_crypted)
next
  case (OpAddPaperKey p)
  with assms show ?thesis
    by (auto simp: AddPaperKey_def IsCrypted_def AddCryptedPaperKey_def SetCrypted_crypted
        split: option.splits)
next
  case OpDecryptPaperKey
  with assms show ?thesis by (auto simp: DecryptPaperKey_def split: option.splits)
next
  case (OpAddCryptedPinCode v)
  with assms show ?thesis by (auto simp: AddCryptedPinCode_def SetCrypted_crypted)
next
  case (OpAddPinCode p)
  with assms show ?thesis
    by (auto simp: AddPinCode_def IsCrypted_def AddCryptedPinCode_def SetCrypted_crypted
        split: option.splits)
next
  case OpDecryptPinCode
  with assms show ?thesis by (auto simp: DecryptPinCode_def split: option.splits)
next
  case (OpAddKeyPubKey key pubkey)
  with assms show ?thesis
    by (auto simp: AddKeyPubKey_def IsCrypted_def AddCryptedKey_crypted split: option.splits)
next
  case (OpAddCryptedKey pubkey v)
  with assms show ?thesis by (auto simp: AddCryptedKey_crypted)
next
  case (OpEncryptKeys m)
  with assms show ?thesis by (auto simp: EncryptKeys_def IsCrypted_def)
next
  case (OpEncryptPaperKey m)
  with assms show ?thesis by (auto simp: EncryptPaperKey_def split: option.splits)
next
  case (OpEncryptPinCode m)
  with assms show ?thesis by (auto simp: EncryptPinCode_def split: option.splits)
qed

lemma step_uncrypted:
  assumes "\<not> fUseCrypto st" and "\<not> broken_off P op st" and "step P op st = Some st'"
    and "fUseCrypto st'"
  shows "mapKeys st' = []"
proof (cases op)
  case OpSetCrypted
  with assms show ?thesis by (auto simp: SetCrypted_def split: if_splits)
next
  case OpLock
  with assms show ?thesis by (auto simp: Lock_def SetCrypted_def split: if_splits)
next
  case (OpUnlock m)
  with assms Unlock_cases [of P st m] show ?thesis
    by (auto simp: SetCrypted_def split: outcome.splits if_splits)
next
  case (OpAddCryptedPaperKey v)
  with assms show ?thesis by (auto simp: AddCryptedPaperKey_def SetCrypted_def split: if_splits)
next
  case (OpAddPaperKey p)
  with assms show ?thesis
    by (auto simp: AddPaperKey_def IsCrypted_def CBasicKeyStore_AddPaperKey_def)
next
  case OpDecryptPaperKey
  with assms show ?thesis by (auto simp: DecryptPaperKey_def split: option.splits)
next
  case (OpAddCryptedPinCode v)
  with assms show ?thesis by (auto simp: AddCryptedPinCode_def SetCrypted_def split: if_splits)
next
  case (OpAddPinCode p)
  with assms show ?thesis
    by (auto simp: AddPinCode_def IsCrypted_def CBasicKeyStore_AddPinCode_def)
next
  case OpDecryptPinCode
  with assms show ?thesis by (auto simp: DecryptPinCode_def split: option.splits)
next
  case (OpAddKeyPubKey key pubkey)
  with assms show ?thesis
    by (auto simp: AddKeyPubKey_def IsCrypted_def CBasicKeyStore_AddKeyPubKey_def)
next
  case (OpAddCryptedKey pubkey v)
  with assms show ?thesis by (auto simp: AddCryptedKey_def SetCrypted_def split: if_splits)
next
  case (OpEncryptKeys m)
  show ?thesis
  proof (cases "mapCryptedKeys st = []")
    case False
    with assms OpEncryptKeys show ?thesis by (auto simp: EncryptKeys_def)
  next
    case True
    with assms(1,2) OpEncryptKeys have "fst (EncryptKeys P st m)"
      by (simp add: broken_off_def IsCrypted_def)
    then obtain st1 where "EncryptKeys P st m = (True, st1)" by (cases "EncryptKeys P st m") auto
    with EncryptKeys_success(4) [of P st m st1] assms(3) OpEncryptKeys show ?thesis by auto
  qed
next
  case (OpEncryptPaperKey m)
  with assms show ?thesis by (auto simp: EncryptPaperKey_def split: option.splits if_splits)
next
  case (OpEncryptPinCode m)
  with assms show ?thesis by (auto simp: EncryptPinCode_def split: option.splits if_splits)
qed

text \<open>
  Claim C6, amended. Invariant I1, that \<open>mapKeys\<close> is empty whenever \<open>fUseCrypto\<close> is
  set, holds after every run from a store where it holds, the calls that return false
  included, provided no call of \<open>EncryptKeys\<close> in the run is broken off, that is
  returns false from inside its loop after setting \<open>fUseCrypto\<close>.
\<close>

theorem I1_preserved:
  "(fUseCrypto st \<longrightarrow> mapKeys st = []) \<Longrightarrow> none_broken_off P ops st \<Longrightarrow>
     run P ops st = Some st' \<Longrightarrow> (fUseCrypto st' \<longrightarrow> mapKeys st' = [])"
proof (induction ops arbitrary: st)
  case Nil
  then show ?case by simp
next
  case (Cons op ops)
  from Cons.prems(3) obtain st1 where s: "step P op st = Some st1" and r: "run P ops st1 = Some st'"
    by (auto split: option.splits)
  from Cons.prems(2) s have nb: "\<not> broken_off P op st" and rest: "none_broken_off P ops st1"
    by simp_all
  have "fUseCrypto st1 \<longrightarrow> mapKeys st1 = []"
  proof (cases "fUseCrypto st")
    case True
    with Cons.prems(1) step_crypted [OF True s] show ?thesis by simp
  next
    case False
    with step_uncrypted [OF False nb s] show ?thesis by blast
  qed
  from Cons.IH [OF this rest r] show ?case .
qed

theorem I1_preserved_witness:
  "\<not> fUseCrypto demo_init
   \<and> none_broken_off demo_P demo_ops demo_init
   \<and> run demo_P demo_ops demo_init \<noteq> None
   \<and> fUseCrypto (the (run demo_P demo_ops demo_init))
   \<and> mapKeys (the (run demo_P demo_ops demo_init)) = []"
proof -
  have i: "\<not> fUseCrypto demo_init"
    and n: "none_broken_off demo_P demo_ops demo_init"
    and r: "run demo_P demo_ops demo_init \<noteq> None"
    and u: "fUseCrypto (the (run demo_P demo_ops demo_init))"
    by code_simp+
  from i have i': "fUseCrypto demo_init \<longrightarrow> mapKeys demo_init = []" by simp
  from r have r': "run demo_P demo_ops demo_init = Some (the (run demo_P demo_ops demo_init))"
    by simp
  from I1_preserved [OF i' n r'] show ?thesis using i n r u by simp
qed

text \<open>
  Claim C6 as stated fails: on a store with one key, \<open>EncryptKeys\<close> with an empty
  master key sets \<open>fUseCrypto\<close>, fails on the first key and returns before \<open>mapKeys\<close>
  is cleared.
\<close>

theorem EncryptKeys_broken_off_breaks_I1:
  "run demo_P demo_ops_broken demo_init \<noteq> None
   \<and> fUseCrypto (the (run demo_P demo_ops_broken demo_init))
   \<and> mapKeys (the (run demo_P demo_ops_broken demo_init)) \<noteq> []"
  by code_simp

lemma run_crypted: "fUseCrypto st \<Longrightarrow> run P ops st = Some st' \<Longrightarrow> fUseCrypto st'"
proof (induction ops arbitrary: st)
  case Nil
  then show ?case by simp
next
  case (Cons op ops)
  from Cons.prems(2) obtain st1 where s: "step P op st = Some st1" and r: "run P ops st1 = Some st'"
    by (auto split: option.splits)
  from step_crypted [OF Cons.prems(1) s] have "fUseCrypto st1" by simp
  from Cons.IH [OF this r] show ?case .
qed

lemma EncryptKeys_crypted: "fUseCrypto st \<Longrightarrow> EncryptKeys P st m = (False, st)"
  by (simp add: EncryptKeys_def IsCrypted_def)

text \<open>
  Claim C7. Once \<open>fUseCrypto\<close> is set it is set after every run. \<open>EncryptKeys\<close> on a
  store with \<open>fUseCrypto\<close> set returns false and leaves the store as it is; a second
  call of \<open>EncryptKeys\<close> right after a first one always does so, and after a first call
  that returned true \<open>fUseCrypto\<close> is set.
\<close>

theorem fUseCrypto_one_way:
  "(fUseCrypto st \<longrightarrow> run P ops st = Some st' \<longrightarrow> fUseCrypto st')
   \<and> (fUseCrypto st \<longrightarrow> EncryptKeys P st m = (False, st))
   \<and> EncryptKeys P (snd (EncryptKeys P st m)) m' = (False, snd (EncryptKeys P st m))
   \<and> (fst (EncryptKeys P st m) \<longrightarrow> fUseCrypto (snd (EncryptKeys P st m)))"
proof -
  have second: "EncryptKeys P (snd (EncryptKeys P st m)) m' = (False, snd (EncryptKeys P st m))"
  proof (cases "mapCryptedKeys st \<noteq> [] \<or> IsCrypted st")
    case True
    then have "EncryptKeys P st m = (False, st)" by (simp add: EncryptKeys_def)
    with True show ?thesis by (simp add: EncryptKeys_def)
  next
    case False
    have "fUseCrypto (snd (EncryptKeys_loop P m (mapKeys st) (st\<lparr>fUseCrypto := True\<rparr>)))"
      using EncryptKeys_loop_fields [of "st\<lparr>fUseCrypto := True\<rparr>" P m "mapKeys st"] by simp
    with False have "fUseCrypto (snd (EncryptKeys P st m))"
      by (auto simp: EncryptKeys_def split: prod.splits bool.splits)
    then show ?thesis by (rule EncryptKeys_crypted)
  qed
  have first: "fst (EncryptKeys P st m) \<longrightarrow> fUseCrypto (snd (EncryptKeys P st m))"
  proof
    assume "fst (EncryptKeys P st m)"
    then have "EncryptKeys P st m = (True, snd (EncryptKeys P st m))" by (simp add: prod_eq_iff)
    then show "fUseCrypto (snd (EncryptKeys P st m))" by (rule EncryptKeys_success(1))
  qed
  from second first show ?thesis by (auto simp: EncryptKeys_crypted dest: run_crypted)
qed

theorem fUseCrypto_one_way_witness:
  "fUseCrypto demo_crypted
   \<and> run demo_P [OpLock, OpUnlock demo_master] demo_crypted = Some demo_unlocked
   \<and> fUseCrypto demo_unlocked
   \<and> EncryptKeys demo_P demo_crypted demo_master = (False, demo_crypted)
   \<and> fst (EncryptKeys demo_P demo_plain demo_master)
   \<and> EncryptKeys demo_P (snd (EncryptKeys demo_P demo_plain demo_master)) demo_master
       = (False, snd (EncryptKeys demo_P demo_plain demo_master))"
proof -
  have c: "fUseCrypto demo_crypted"
    and r: "run demo_P [OpLock, OpUnlock demo_master] demo_crypted = Some demo_unlocked"
    and f: "fst (EncryptKeys demo_P demo_plain demo_master)"
    by code_simp+
  from fUseCrypto_one_way [of demo_crypted demo_P "[OpLock, OpUnlock demo_master]" demo_unlocked
      demo_master demo_master]
    fUseCrypto_one_way [of demo_plain demo_P "[]" demo_plain demo_master demo_master]
  show ?thesis using c r f by simp
qed

subsection \<open>AddCryptedKey\<close>

lemma SetCrypted_mapCryptedKeys: "mapCryptedKeys (snd (SetCrypted st)) = mapCryptedKeys st"
  by (simp add: SetCrypted_def)

lemma AddCryptedKey_sorted:
  "sorted_wrt (<) (map fst (mapCryptedKeys st)) \<Longrightarrow>
     sorted_wrt (<) (map fst (mapCryptedKeys (snd (AddCryptedKey P st pub ct))))"
  by (auto simp: AddCryptedKey_def SetCrypted_def sorted_map_assign split: if_splits)

lemma EncryptKeys_loop_sorted:
  "sorted_wrt (<) (map fst (mapCryptedKeys st)) \<Longrightarrow>
     sorted_wrt (<) (map fst (mapCryptedKeys (snd (EncryptKeys_loop P m keys st))))"
proof (induction keys arbitrary: st)
  case Nil
  then show ?case by simp
next
  case (Cons e keys)
  obtain a key where e: "e = (a, key)" by (cases e)
  show ?case
  proof (cases "EncryptSecret P m (keydata key) (CPubKey_GetHash P (CKey_GetPubKey P key))")
    case None
    with Cons.prems show ?thesis by (simp add: e Let_def)
  next
    case (Some ct)
    define r where "r = AddCryptedKey P st (CKey_GetPubKey P key) ct"
    have s: "sorted_wrt (<) (map fst (mapCryptedKeys (snd r)))"
      unfolding r_def using Cons.prems by (rule AddCryptedKey_sorted)
    show ?thesis
    proof (cases "fst r")
      case True
      then have "EncryptKeys_loop P m (e # keys) st = EncryptKeys_loop P m keys (snd r)"
        using Some by (cases r) (simp add: e Let_def r_def [symmetric])
      with Cons.IH [OF s] show ?thesis by simp
    next
      case False
      then have "EncryptKeys_loop P m (e # keys) st = (False, snd r)"
        using Some by (cases r) (simp add: e Let_def r_def [symmetric])
      with s show ?thesis by simp
    qed
  qed
qed

lemma step_sorted:
  assumes "sorted_wrt (<) (map fst (mapCryptedKeys st))" and "step P op st = Some st'"
  shows "sorted_wrt (<) (map fst (mapCryptedKeys st'))"
proof (cases op)
  case OpSetCrypted
  with assms show ?thesis by (auto simp: SetCrypted_mapCryptedKeys)
next
  case OpLock
  with assms show ?thesis by (auto simp: Lock_def SetCrypted_def split: if_splits)
next
  case (OpUnlock m)
  with assms Unlock_cases [of P st m] show ?thesis
    by (auto simp: SetCrypted_mapCryptedKeys split: outcome.splits)
next
  case (OpAddCryptedPaperKey v)
  with assms show ?thesis by (auto simp: AddCryptedPaperKey_def SetCrypted_def split: if_splits)
next
  case (OpAddPaperKey p)
  with assms show ?thesis
    by (auto simp: AddPaperKey_def CBasicKeyStore_AddPaperKey_def AddCryptedPaperKey_def
        SetCrypted_def split: option.splits if_splits)
next
  case OpDecryptPaperKey
  with assms show ?thesis by (auto simp: DecryptPaperKey_def split: option.splits)
next
  case (OpAddCryptedPinCode v)
  with assms show ?thesis by (auto simp: AddCryptedPinCode_def SetCrypted_def split: if_splits)
next
  case (OpAddPinCode p)
  with assms show ?thesis
    by (auto simp: AddPinCode_def CBasicKeyStore_AddPinCode_def AddCryptedPinCode_def
        SetCrypted_def split: option.splits if_splits)
next
  case OpDecryptPinCode
  with assms show ?thesis by (auto simp: DecryptPinCode_def split: option.splits)
next
  case (OpAddKeyPubKey key pubkey)
  show ?thesis
  proof (cases "\<not> IsCrypted st \<or> IsLocked st
      \<or> EncryptSecret P (vMasterKey st) (keydata key) (CPubKey_GetHash P pubkey) = None")
    case True
    with assms OpAddKeyPubKey show ?thesis
      by (auto simp: AddKeyPubKey_def CBasicKeyStore_AddKeyPubKey_def)
  next
    case False
    then obtain ct where
      "EncryptSecret P (vMasterKey st) (keydata key) (CPubKey_GetHash P pubkey) = Some ct"
      by auto
    with False have "snd (AddKeyPubKey P st key pubkey) = snd (AddCryptedKey P st pubkey ct)"
      by (auto simp: AddKeyPubKey_def split: prod.splits bool.splits)
    with assms OpAddKeyPubKey AddCryptedKey_sorted [OF assms(1), of P pubkey ct]
    show ?thesis by auto
  qed
next
  case (OpAddCryptedKey pubkey v)
  with assms AddCryptedKey_sorted [OF assms(1), of P pubkey v] show ?thesis by auto
next
  case (OpEncryptKeys m)
  have "sorted_wrt (<) (map fst (mapCryptedKeys
          (snd (EncryptKeys_loop P m (mapKeys st) (st\<lparr>fUseCrypto := True\<rparr>)))))"
    using assms(1) by (intro EncryptKeys_loop_sorted) simp
  with assms OpEncryptKeys show ?thesis
    by (auto simp: EncryptKeys_def split: if_splits prod.splits bool.splits)
next
  case (OpEncryptPaperKey m)
  with assms show ?thesis by (auto simp: EncryptPaperKey_def split: option.splits if_splits)
next
  case (OpEncryptPinCode m)
  with assms show ?thesis by (auto simp: EncryptPinCode_def split: option.splits if_splits)
qed

lemma run_sorted:
  "sorted_wrt (<) (map fst (mapCryptedKeys st)) \<Longrightarrow> run P ops st = Some st' \<Longrightarrow>
     sorted_wrt (<) (map fst (mapCryptedKeys st'))"
proof (induction ops arbitrary: st)
  case Nil
  then show ?case by simp
next
  case (Cons op ops)
  from Cons.prems(2) obtain st1 where s: "step P op st = Some st1" and r: "run P ops st1 = Some st'"
    by (auto split: option.splits)
  from Cons.IH [OF step_sorted [OF Cons.prems(1) s] r] show ?case .
qed

text \<open>
  Claim C10. \<open>AddCryptedKey\<close> returns what \<open>SetCrypted\<close> returns. When that is
  false the store is unchanged. When it is true, \<open>mapCryptedKeys\<close> maps the identifier of
  the public key to the pair given and every other identifier as before, so an entry
  already there under that identifier is replaced; the identifiers stay strictly
  increasing, hence distinct; and of two insertions under one identifier the later one is
  the one found. Over runs: from a store whose identifiers are strictly
  increasing, every run ends in a store whose identifiers are distinct.
\<close>

theorem AddCryptedKey_assigns:
  "fst (AddCryptedKey P st pub ct) = fst (SetCrypted st)
   \<and> (\<not> fst (SetCrypted st) \<longrightarrow> snd (AddCryptedKey P st pub ct) = st)
   \<and> (fst (SetCrypted st) \<longrightarrow>
        map_of (mapCryptedKeys (snd (AddCryptedKey P st pub ct)))
          = (map_of (mapCryptedKeys st))(CPubKey_GetID P pub \<mapsto> (pub, ct)))
   \<and> (sorted_wrt (<) (map fst (mapCryptedKeys st)) \<longrightarrow>
        sorted_wrt (<) (map fst (mapCryptedKeys (snd (AddCryptedKey P st pub ct))))
        \<and> distinct (map fst (mapCryptedKeys (snd (AddCryptedKey P st pub ct)))))
   \<and> (fst (SetCrypted st) \<and> CPubKey_GetID P pub' = CPubKey_GetID P pub \<longrightarrow>
        map_of (mapCryptedKeys (snd (AddCryptedKey P (snd (AddCryptedKey P st pub ct)) pub' ct')))
          (CPubKey_GetID P pub) = Some (pub', ct'))
   \<and> (sorted_wrt (<) (map fst (mapCryptedKeys st)) \<longrightarrow> run P ops st = Some st'' \<longrightarrow>
        distinct (map fst (mapCryptedKeys st'')))"
proof -
  have one: "fst (AddCryptedKey P st pub ct) = fst (SetCrypted st)
   \<and> (\<not> fst (SetCrypted st) \<longrightarrow> snd (AddCryptedKey P st pub ct) = st)
   \<and> (fst (SetCrypted st) \<longrightarrow>
        map_of (mapCryptedKeys (snd (AddCryptedKey P st pub ct)))
          = (map_of (mapCryptedKeys st))(CPubKey_GetID P pub \<mapsto> (pub, ct)))
   \<and> (sorted_wrt (<) (map fst (mapCryptedKeys st)) \<longrightarrow>
        sorted_wrt (<) (map fst (mapCryptedKeys (snd (AddCryptedKey P st pub ct))))
        \<and> distinct (map fst (mapCryptedKeys (snd (AddCryptedKey P st pub ct)))))
   \<and> (fst (SetCrypted st) \<and> CPubKey_GetID P pub' = CPubKey_GetID P pub \<longrightarrow>
        map_of (mapCryptedKeys (snd (AddCryptedKey P (snd (AddCryptedKey P st pub ct)) pub' ct')))
          (CPubKey_GetID P pub) = Some (pub', ct'))"
  proof (cases "fst (SetCrypted st)")
    case False
    then show ?thesis
      by (auto simp: AddCryptedKey_def SetCrypted_def sorted_lt_distinct split: if_splits)
  next
    case True
    define st1 where "st1 = snd (SetCrypted st)"
    have sc: "SetCrypted st = (True, st1)" using True by (simp add: st1_def prod_eq_iff)
    have m1: "mapCryptedKeys st1 = mapCryptedKeys st" and u1: "fUseCrypto st1"
      using True by (auto simp: st1_def SetCrypted_def split: if_splits)
    define st2 where
      "st2 = st1\<lparr>mapCryptedKeys := map_assign (CPubKey_GetID P pub) (pub, ct) (mapCryptedKeys st)\<rparr>"
    have a1: "AddCryptedKey P st pub ct = (True, st2)"
      by (simp add: AddCryptedKey_def sc m1 st2_def)
    have m2: "mapCryptedKeys st2 = map_assign (CPubKey_GetID P pub) (pub, ct) (mapCryptedKeys st)"
      and u2: "fUseCrypto st2"
      using u1 by (simp_all add: st2_def)
    have a2: "AddCryptedKey P st2 pub' ct' =
        (True, st2\<lparr>mapCryptedKeys := map_assign (CPubKey_GetID P pub') (pub', ct') (mapCryptedKeys st2)\<rparr>)"
      using u2 by (simp add: AddCryptedKey_def SetCrypted_crypted)
    show ?thesis
      using True sorted_map_assign [of "mapCryptedKeys st" "CPubKey_GetID P pub" "(pub, ct)"]
      by (auto simp: a1 a2 m2 map_of_map_assign sorted_lt_distinct)
  qed
  have runs: "sorted_wrt (<) (map fst (mapCryptedKeys st)) \<longrightarrow> run P ops st = Some st'' \<longrightarrow>
        distinct (map fst (mapCryptedKeys st''))"
    using run_sorted [of st P ops st''] by (auto intro: sorted_lt_distinct)
  from one runs show ?thesis by blast
qed

theorem AddCryptedKey_assigns_witness:
  "fst (SetCrypted demo_crypted)
   \<and> CPubKey_GetID demo_P ([21, 5], True) = CPubKey_GetID demo_P demo_pub2
   \<and> sorted_wrt (<) (map fst (mapCryptedKeys demo_crypted))
   \<and> map fst (mapCryptedKeys (snd (AddCryptedKey demo_P demo_crypted demo_pub2 [1, 2, 3]))) = [8, 21]
   \<and> map_of (mapCryptedKeys (snd (AddCryptedKey demo_P
          (snd (AddCryptedKey demo_P demo_crypted demo_pub2 [1, 2, 3])) ([21, 5], True) [4])))
        (CPubKey_GetID demo_P demo_pub2) = Some (([21, 5], True), [4])
   \<and> run demo_P [OpAddCryptedKey demo_pub2 [1, 2, 3], OpAddCryptedKey demo_pub3 [7]] demo_crypted
        \<noteq> None
   \<and> distinct (map fst (mapCryptedKeys (the (run demo_P
          [OpAddCryptedKey demo_pub2 [1, 2, 3], OpAddCryptedKey demo_pub3 [7]] demo_crypted))))"
proof -
  have s: "fst (SetCrypted demo_crypted)"
    and i: "CPubKey_GetID demo_P ([21, 5], True) = CPubKey_GetID demo_P demo_pub2"
    and o: "sorted_wrt (<) (map fst (mapCryptedKeys demo_crypted))"
    and k: "map fst (mapCryptedKeys (snd (AddCryptedKey demo_P demo_crypted demo_pub2 [1, 2, 3]))) = [8, 21]"
    and r: "run demo_P [OpAddCryptedKey demo_pub2 [1, 2, 3], OpAddCryptedKey demo_pub3 [7]] demo_crypted
        \<noteq> None"
    by code_simp+
  from r have r': "run demo_P [OpAddCryptedKey demo_pub2 [1, 2, 3], OpAddCryptedKey demo_pub3 [7]] demo_crypted
      = Some (the (run demo_P [OpAddCryptedKey demo_pub2 [1, 2, 3], OpAddCryptedKey demo_pub3 [7]] demo_crypted))"
    by simp
  from AddCryptedKey_assigns [of demo_P demo_crypted demo_pub2 "[1, 2, 3]" "([21, 5], True)" "[4]"
      "[OpAddCryptedKey demo_pub2 [1, 2, 3], OpAddCryptedKey demo_pub3 [7]]"
      "the (run demo_P [OpAddCryptedKey demo_pub2 [1, 2, 3], OpAddCryptedKey demo_pub3 [7]] demo_crypted)"]
  show ?thesis using s i o k r r' by simp
qed

subsection \<open>Unlock after EncryptKeys and Lock\<close>

lemma Unlock_loop_closed:
  "Unlock_loop P m chk es kp =
     (if es = [] then (kp, False)
      else if \<not> list_all (\<lambda>(a, pub, ct). DecryptKey P m ct pub \<noteq> None) (take 1 es) then (kp, True)
      else if chk then (True, False)
      else (True, \<not> list_all (\<lambda>(a, pub, ct). DecryptKey P m ct pub \<noteq> None) es))"
proof (induction es arbitrary: kp)
  case Nil
  then show ?case by simp
next
  case (Cons e es)
  obtain a pub ct where e: "e = (a, pub, ct)" by (cases e)
  show ?case
  proof (cases "DecryptKey P m ct pub = None")
    case True
    then show ?thesis by (simp add: e)
  next
    case False
    show ?thesis
    proof (cases chk)
      case True
      with False show ?thesis by (simp add: e)
    next
      case nchk: False
      show ?thesis
      proof (cases es)
        case Nil
        with False nchk show ?thesis by (simp add: e)
      next
        case (Cons e' es')
        with False nchk Cons.IH [of True] show ?thesis by (auto simp: e)
      qed
    qed
  qed
qed

lemma Unlock_closed:
  assumes "fUseCrypto st"
  shows "Unlock P st m =
     (if mapCryptedKeys st \<noteq> []
         \<and> list_all (\<lambda>(a, pub, ct). DecryptKey P m ct pub \<noteq> None)
              (if fDecryptionThoroughlyChecked st then take 1 (mapCryptedKeys st)
               else mapCryptedKeys st)
      then Returns (True, st\<lparr>vMasterKey := m, fDecryptionThoroughlyChecked := True\<rparr>)
      else if mapCryptedKeys st \<noteq> []
         \<and> list_all (\<lambda>(a, pub, ct). DecryptKey P m ct pub \<noteq> None) (take 1 (mapCryptedKeys st))
      then AssertionFailure
      else Returns (False, st))"
proof (cases "mapCryptedKeys st")
  case Nil
  with assms show ?thesis by (simp add: Unlock_def SetCrypted_crypted)
next
  case (Cons e es)
  obtain a pub ct where e: "e = (a, pub, ct)" by (cases e)
  show ?thesis
    using assms
    by (simp add: Unlock_def SetCrypted_crypted Unlock_loop_closed Cons e)
qed

lemma GetKey_locked:
  "fUseCrypto st \<Longrightarrow> vMasterKey st = [] \<Longrightarrow> GetKey P st address = None"
  by (auto simp: GetKey_def IsCrypted_def DecryptKey_bad_master split: option.splits)

lemma GetKey_after_Lock: "fUseCrypto st \<Longrightarrow> GetKey P (snd (Lock st)) address = None"
  by (simp add: Lock_crypted GetKey_locked)

lemma EncryptKeys_loop_made:
  assumes ok: "primitives_ok P"
  shows "fUseCrypto st \<Longrightarrow> \<forall>(a, k) \<in> set keys. valid_key k \<Longrightarrow>
     \<forall>e \<in> set (mapCryptedKeys st). made_under P m e \<Longrightarrow>
     EncryptKeys_loop P m keys st = (True, st') \<Longrightarrow>
     \<forall>e \<in> set (mapCryptedKeys st'). made_under P m e"
proof (induction keys arbitrary: st)
  case Nil
  then show ?case by simp
next
  case (Cons e keys)
  obtain a key where e: "e = (a, key)" by (cases e)
  define pub where "pub = CKey_GetPubKey P key"
  from ok have bc: "block_cipher (AES256Encrypt P) (AES256Decrypt P)"
    and h: "16 \<le> length (CPubKey_GetHash P pub)"
    by (simp_all add: primitives_ok_def)
  from Cons.prems(2) have v: "valid_key key" and vs: "\<forall>(a, k) \<in> set keys. valid_key k"
    by (auto simp: e)
  from Cons.prems(4) obtain ct where
    enc: "EncryptSecret P m (keydata key) (CPubKey_GetHash P pub) = Some ct"
    by (auto simp: e Let_def pub_def split: option.splits)
  have lm: "length m = 32"
    using enc EncryptSecret_bad_master [of m P "keydata key" "CPubKey_GetHash P pub"]
    by (cases "length m = 32") auto
  have ct: "ct = AES256CBCEncrypt (AES256Encrypt P) m (take 16 (CPubKey_GetHash P pub)) (keydata key)"
    using EncryptSecret_Some [OF bc lm h, of "keydata key"] enc by simp
  define st1 where "st1 = st\<lparr>mapCryptedKeys :=
       map_assign (CPubKey_GetID P pub) (pub, ct) (mapCryptedKeys st)\<rparr>"
  have u: "fUseCrypto st1" using Cons.prems(1) by (simp add: st1_def)
  have m1: "mapCryptedKeys st1 = map_assign (CPubKey_GetID P pub) (pub, ct) (mapCryptedKeys st)"
    by (simp add: st1_def)
  have loop: "EncryptKeys_loop P m keys st1 = (True, st')"
    using Cons.prems(1,4) enc
    by (simp add: e Let_def AddCryptedKey_crypted st1_def pub_def)
  have new: "made_under P m (CPubKey_GetID P pub, pub, ct)"
    using v lm ct by (auto simp: made_under_def pub_def)
  have g1: "\<forall>e \<in> set (mapCryptedKeys st1). made_under P m e"
    using Cons.prems(3) new set_map_assign [of "CPubKey_GetID P pub" "(pub, ct)" "mapCryptedKeys st"]
    unfolding m1 by auto
  from Cons.IH [OF u vs g1 loop] show ?case .
qed

lemma DecryptKey_made:
  assumes ok: "primitives_ok P" and inj: "derivation_injective P"
    and made: "made_under P m (a, pub, ct)"
  shows "(DecryptKey P m' ct pub \<noteq> None) =
     (length m' = 32
      \<and> AES256CBCDecrypt (AES256Decrypt P) m' (take 16 (CPubKey_GetHash P pub)) ct
          = AES256CBCDecrypt (AES256Decrypt P) m (take 16 (CPubKey_GetHash P pub)) ct)"
proof -
  from ok have bc: "block_cipher (AES256Encrypt P) (AES256Decrypt P)"
    and h: "length (take 16 (CPubKey_GetHash P pub)) = 16"
    and c: "\<And>key. CPubKey_IsCompressed P (CKey_GetPubKey P key) = fCompressed key"
    by (simp_all add: primitives_ok_def)
  from made obtain k where lm: "length m = 32" and v: "valid_key k"
    and pub: "pub = CKey_GetPubKey P k"
    and ct: "ct = AES256CBCEncrypt (AES256Encrypt P) m (take 16 (CPubKey_GetHash P pub)) (keydata k)"
    by (auto simp: made_under_def)
  from v have lk: "length (keydata k) = 32" and ne: "keydata k \<noteq> []" by (auto simp: valid_key_def)
  define iv where "iv = take 16 (CPubKey_GetHash P pub)"
  have dm: "AES256CBCDecrypt (AES256Decrypt P) m iv ct = keydata k"
    using AES256CBC_roundtrip(1) [OF bc h ne, of m] by (simp add: ct iv_def)
  show ?thesis
  proof (cases "length m' = 32")
    case False
    then show ?thesis by (simp add: DecryptKey_bad_master)
  next
    case True
    define pt where "pt = AES256CBCDecrypt (AES256Decrypt P) m' iv ct"
    have ds: "DecryptSecret P m' ct (CPubKey_GetHash P pub) = (if pt = [] then None else Some pt)"
      using SetKey_init [OF True h]
      by (simp add: DecryptSecret_def memcpy_def Let_def Decrypt_def pt_def iv_def)
    have kk: "CKey_Set (keydata k) (fCompressed k) = k" by (cases k) (simp add: CKey_Set_def)
    have "(DecryptKey P m' ct pub \<noteq> None) = (pt = keydata k)"
    proof (cases "length pt = 32")
      case False
      then have "pt \<noteq> keydata k" using lk by auto
      with False show ?thesis by (auto simp: DecryptKey_def ds)
    next
      case l32: True
      then have pne: "pt \<noteq> []" by auto
      have vk: "valid_key (CKey_Set pt (fCompressed k))" using l32 by (simp add: valid_key_def CKey_Set_def)
      have cp: "CPubKey_IsCompressed P pub = fCompressed k" using c [of k] by (simp add: pub)
      have "(CKey_GetPubKey P (CKey_Set pt (fCompressed k)) = pub) = (pt = keydata k)"
      proof
        assume "CKey_GetPubKey P (CKey_Set pt (fCompressed k)) = pub"
        with inj vk v have "CKey_Set pt (fCompressed k) = k"
          unfolding pub by (auto simp: derivation_injective_def)
        then show "pt = keydata k" by (cases k) (simp add: CKey_Set_def)
      next
        assume "pt = keydata k"
        then show "CKey_GetPubKey P (CKey_Set pt (fCompressed k)) = pub"
          by (simp add: kk pub)
      qed
      then show ?thesis
        using l32 pne by (simp add: DecryptKey_def ds VerifyPubKey_def Let_def cp)
    qed
    then show ?thesis using True dm by (simp add: pt_def iv_def)
  qed
qed

lemma demo_derivation_injective: "derivation_injective demo_P"
proof -
  have "xs = ys" if "map (\<lambda>b. b + 1) xs = map (\<lambda>b. b + 1) ys" for xs ys :: bytes
    using that by (simp add: inj_map_eq_map inj_def)
  then show ?thesis
    unfolding derivation_injective_def demo_P_def by (auto intro: CKey.equality)
qed

text \<open>
  Claim C2, amended. Let \<open>EncryptKeys\<close> with master key \<open>m\<close> return true. After \<open>Lock\<close>,
  directly or after any run of further operations, \<open>GetKey\<close> fails for every identifier.
  On the locked store, \<open>Unlock\<close> with a key \<open>m'\<close> returns true, storing \<open>m'\<close>, exactly when
  the map is not empty and \<open>DecryptKey\<close> under \<open>m'\<close> accepts every entry it has to check
  (the first one when \<open>fDecryptionThoroughlyChecked\<close> is set, all of them otherwise); it
  stops in the assertion when the first entry is accepted and a later checked one is
  not; otherwise it returns false and leaves the store unchanged. So \<open>Unlock\<close> with \<open>m\<close>
  itself returns true when the store held at least one key at \<open>EncryptKeys\<close> and its
  keys were valid, and \<open>Unlock\<close> returns false with every key when the store held no
  key, and with every key that has not 32 bytes. When moreover the derivation of public
  keys is injective, \<open>Unlock\<close> with \<open>m'\<close> returns true if and only if \<open>m'\<close> has 32 bytes
  and deciphers the ciphertext of every entry it has to check to the same plaintext as
  \<open>m\<close> does, and a key that does not do so on the first entry is refused with the store
  unchanged; \<open>m\<close> is such a key, and whether another 32-byte key is one is a property of
  the cipher alone.
\<close>

theorem Lock_then_Unlock:
  assumes ok: "primitives_ok P"
    and enc: "EncryptKeys P st0 m = (True, st1)"
    and lock: "Lock st1 = (b, st2)"
  shows "(\<forall>address. GetKey P st2 address = None)
    \<and> (run P ops st1 = Some st3 \<longrightarrow> (\<forall>address. GetKey P (snd (Lock st3)) address = None))
    \<and> (mapKeys st0 \<noteq> [] \<and> (\<forall>(a, k) \<in> set (mapKeys st0). valid_key k) \<longrightarrow>
         Unlock P st2 m = Returns (True, st2\<lparr>vMasterKey := m, fDecryptionThoroughlyChecked := True\<rparr>))
    \<and> (mapKeys st0 = [] \<longrightarrow> Unlock P st2 m' = Returns (False, st2))
    \<and> (length m' \<noteq> 32 \<longrightarrow> Unlock P st2 m' = Returns (False, st2))
    \<and> Unlock P st2 m' =
         (if mapCryptedKeys st2 \<noteq> []
             \<and> list_all (\<lambda>(a, pub, ct). DecryptKey P m' ct pub \<noteq> None)
                  (if fDecryptionThoroughlyChecked st2 then take 1 (mapCryptedKeys st2)
                   else mapCryptedKeys st2)
          then Returns (True, st2\<lparr>vMasterKey := m', fDecryptionThoroughlyChecked := True\<rparr>)
          else if mapCryptedKeys st2 \<noteq> []
             \<and> list_all (\<lambda>(a, pub, ct). DecryptKey P m' ct pub \<noteq> None)
                  (take 1 (mapCryptedKeys st2))
          then AssertionFailure
          else Returns (False, st2))
    \<and> (derivation_injective P \<and> mapKeys st0 \<noteq> []
          \<and> (\<forall>(a, k) \<in> set (mapKeys st0). valid_key k) \<longrightarrow>
         ((\<exists>st'. Unlock P st2 m' = Returns (True, st')) \<longleftrightarrow>
            length m' = 32
            \<and> list_all
                 (\<lambda>(a, pub, ct).
                    AES256CBCDecrypt (AES256Decrypt P) m' (take 16 (CPubKey_GetHash P pub)) ct
                    = AES256CBCDecrypt (AES256Decrypt P) m (take 16 (CPubKey_GetHash P pub)) ct)
                 (if fDecryptionThoroughlyChecked st2 then take 1 (mapCryptedKeys st2)
                  else mapCryptedKeys st2)))
    \<and> (derivation_injective P \<and> mapKeys st0 \<noteq> []
          \<and> (\<forall>(a, k) \<in> set (mapKeys st0). valid_key k)
          \<and> \<not> (length m' = 32
                \<and> list_all
                     (\<lambda>(a, pub, ct).
                        AES256CBCDecrypt (AES256Decrypt P) m' (take 16 (CPubKey_GetHash P pub)) ct
                        = AES256CBCDecrypt (AES256Decrypt P) m (take 16 (CPubKey_GetHash P pub)) ct)
                     (take 1 (mapCryptedKeys st2))) \<longrightarrow>
         Unlock P st2 m' = Returns (False, st2))"
proof -
  note es = EncryptKeys_success [OF enc]
  from es(4) obtain stl where
    l: "EncryptKeys_loop P m (mapKeys st0) (st0\<lparr>fUseCrypto := True\<rparr>) = (True, stl)"
    and s1: "st1 = stl\<lparr>mapKeys := []\<rparr>" by blast
  have st2: "st2 = st1\<lparr>vMasterKey := []\<rparr>" using lock Lock_crypted [OF es(1)] by simp
  have u2: "fUseCrypto st2" using es(1) by (simp add: st2)
  have m2: "mapCryptedKeys st2 = mapCryptedKeys stl" by (simp add: st2 s1)
  have k2: "vMasterKey st2 = []" by (simp add: st2)
  have getkey: "\<forall>address. GetKey P st2 address = None"
    using u2 k2 by (simp add: GetKey_locked)
  have later: "run P ops st1 = Some st3 \<longrightarrow> (\<forall>address. GetKey P (snd (Lock st3)) address = None)"
    using run_crypted [OF es(1), of P ops st3] by (auto simp: GetKey_after_Lock)
  have good: "mapKeys st0 \<noteq> [] \<and> (\<forall>(a, k) \<in> set (mapKeys st0). valid_key k) \<longrightarrow>
         Unlock P st2 m = Returns (True, st2\<lparr>vMasterKey := m, fDecryptionThoroughlyChecked := True\<rparr>)"
  proof
    assume h: "mapKeys st0 \<noteq> [] \<and> (\<forall>(a, k) \<in> set (mapKeys st0). valid_key k)"
    have "(\<forall>(a, pub, ct) \<in> set (mapCryptedKeys stl). DecryptKey P m ct pub \<noteq> None)
       \<and> (mapKeys st0 \<noteq> [] \<or> mapCryptedKeys (st0\<lparr>fUseCrypto := True\<rparr>) \<noteq> [] \<longrightarrow> mapCryptedKeys stl \<noteq> [])"
      using h es(2) by (intro EncryptKeys_loop_good [OF ok _ _ _ l]) simp_all
    with h have "\<forall>(a, pub, ct) \<in> set (mapCryptedKeys st2). DecryptKey P m ct pub \<noteq> None"
      and "mapCryptedKeys st2 \<noteq> []" by (simp_all add: m2)
    then show "Unlock P st2 m = Returns (True, st2\<lparr>vMasterKey := m, fDecryptionThoroughlyChecked := True\<rparr>)"
      using Unlock_all_good [OF u2] by blast
  qed
  have empty: "mapKeys st0 = [] \<longrightarrow> Unlock P st2 m' = Returns (False, st2)"
  proof
    assume "mapKeys st0 = []"
    with l es(2) have "mapCryptedKeys stl = []" by auto
    then show "Unlock P st2 m' = Returns (False, st2)"
      using Unlock_all_bad [OF u2, of P m'] by (simp add: m2)
  qed
  have short: "length m' \<noteq> 32 \<longrightarrow> Unlock P st2 m' = Returns (False, st2)"
    using Unlock_all_bad [OF u2, of P m'] by (simp add: DecryptKey_bad_master)
  note closed = Unlock_closed [OF u2, of P m']
  have iff: "derivation_injective P \<and> mapKeys st0 \<noteq> []
          \<and> (\<forall>(a, k) \<in> set (mapKeys st0). valid_key k) \<longrightarrow>
         ((\<exists>st'. Unlock P st2 m' = Returns (True, st')) \<longleftrightarrow>
            length m' = 32
            \<and> list_all
                 (\<lambda>(a, pub, ct).
                    AES256CBCDecrypt (AES256Decrypt P) m' (take 16 (CPubKey_GetHash P pub)) ct
                    = AES256CBCDecrypt (AES256Decrypt P) m (take 16 (CPubKey_GetHash P pub)) ct)
                 (if fDecryptionThoroughlyChecked st2 then take 1 (mapCryptedKeys st2)
                  else mapCryptedKeys st2))"
  proof
    assume h: "derivation_injective P \<and> mapKeys st0 \<noteq> []
          \<and> (\<forall>(a, k) \<in> set (mapKeys st0). valid_key k)"
    define chk where "chk = (if fDecryptionThoroughlyChecked st2 then take 1 (mapCryptedKeys st2)
                  else mapCryptedKeys st2)"
    have "(\<forall>(a, pub, ct) \<in> set (mapCryptedKeys stl). DecryptKey P m ct pub \<noteq> None)
       \<and> (mapKeys st0 \<noteq> [] \<or> mapCryptedKeys (st0\<lparr>fUseCrypto := True\<rparr>) \<noteq> [] \<longrightarrow> mapCryptedKeys stl \<noteq> [])"
      using h es(2) by (intro EncryptKeys_loop_good [OF ok _ _ _ l]) simp_all
    with h have ne: "mapCryptedKeys st2 \<noteq> []" by (simp add: m2)
    then have cne: "chk \<noteq> []" by (simp add: chk_def)
    have sub: "set chk \<subseteq> set (mapCryptedKeys st2)"
      by (auto simp: chk_def dest: in_set_takeD)
    have made: "\<forall>e \<in> set (mapCryptedKeys stl). made_under P m e"
      using h es(2) by (intro EncryptKeys_loop_made [OF ok _ _ _ l]) simp_all
    have each: "(DecryptKey P m' ct pub \<noteq> None) =
        (length m' = 32
         \<and> AES256CBCDecrypt (AES256Decrypt P) m' (take 16 (CPubKey_GetHash P pub)) ct
             = AES256CBCDecrypt (AES256Decrypt P) m (take 16 (CPubKey_GetHash P pub)) ct)"
      if "(a, pub, ct) \<in> set chk" for a pub ct
    proof -
      from that sub made have "made_under P m (a, pub, ct)" by (auto simp: m2)
      with h show ?thesis by (intro DecryptKey_made [OF ok]) simp_all
    qed
    have "list_all (\<lambda>(a, pub, ct). DecryptKey P m' ct pub \<noteq> None) chk
        = (length m' = 32
           \<and> list_all
                (\<lambda>(a, pub, ct).
                   AES256CBCDecrypt (AES256Decrypt P) m' (take 16 (CPubKey_GetHash P pub)) ct
                   = AES256CBCDecrypt (AES256Decrypt P) m (take 16 (CPubKey_GetHash P pub)) ct)
                chk)"
    proof -
      from cne obtain e where e: "e \<in> set chk" by (cases chk) auto
      show ?thesis using each e unfolding list_all_iff by fastforce
    qed
    moreover have "(\<exists>st'. Unlock P st2 m' = Returns (True, st'))
        = list_all (\<lambda>(a, pub, ct). DecryptKey P m' ct pub \<noteq> None) chk"
      unfolding closed chk_def using ne by auto
    ultimately show "(\<exists>st'. Unlock P st2 m' = Returns (True, st')) \<longleftrightarrow>
            length m' = 32
            \<and> list_all
                 (\<lambda>(a, pub, ct).
                    AES256CBCDecrypt (AES256Decrypt P) m' (take 16 (CPubKey_GetHash P pub)) ct
                    = AES256CBCDecrypt (AES256Decrypt P) m (take 16 (CPubKey_GetHash P pub)) ct)
                 (if fDecryptionThoroughlyChecked st2 then take 1 (mapCryptedKeys st2)
                  else mapCryptedKeys st2)"
      unfolding chk_def by simp
  qed
  have wrong: "derivation_injective P \<and> mapKeys st0 \<noteq> []
          \<and> (\<forall>(a, k) \<in> set (mapKeys st0). valid_key k)
          \<and> \<not> (length m' = 32
                \<and> list_all
                     (\<lambda>(a, pub, ct).
                        AES256CBCDecrypt (AES256Decrypt P) m' (take 16 (CPubKey_GetHash P pub)) ct
                        = AES256CBCDecrypt (AES256Decrypt P) m (take 16 (CPubKey_GetHash P pub)) ct)
                     (take 1 (mapCryptedKeys st2))) \<longrightarrow>
         Unlock P st2 m' = Returns (False, st2)"
  proof
    assume h: "derivation_injective P \<and> mapKeys st0 \<noteq> []
          \<and> (\<forall>(a, k) \<in> set (mapKeys st0). valid_key k)
          \<and> \<not> (length m' = 32
                \<and> list_all
                     (\<lambda>(a, pub, ct).
                        AES256CBCDecrypt (AES256Decrypt P) m' (take 16 (CPubKey_GetHash P pub)) ct
                        = AES256CBCDecrypt (AES256Decrypt P) m (take 16 (CPubKey_GetHash P pub)) ct)
                     (take 1 (mapCryptedKeys st2)))"
    have "(\<forall>(a, pub, ct) \<in> set (mapCryptedKeys stl). DecryptKey P m ct pub \<noteq> None)
       \<and> (mapKeys st0 \<noteq> [] \<or> mapCryptedKeys (st0\<lparr>fUseCrypto := True\<rparr>) \<noteq> [] \<longrightarrow> mapCryptedKeys stl \<noteq> [])"
      using h es(2) by (intro EncryptKeys_loop_good [OF ok _ _ _ l]) simp_all
    with h have "mapCryptedKeys st2 \<noteq> []" by (simp add: m2)
    then obtain a pub ct rest where c: "mapCryptedKeys st2 = (a, pub, ct) # rest"
      by (cases "mapCryptedKeys st2") auto
    have made: "\<forall>e \<in> set (mapCryptedKeys stl). made_under P m e"
      using h es(2) by (intro EncryptKeys_loop_made [OF ok _ _ _ l]) simp_all
    then have "made_under P m (a, pub, ct)" using c by (simp add: m2 [symmetric])
    with h have "(DecryptKey P m' ct pub \<noteq> None) =
        (length m' = 32
         \<and> AES256CBCDecrypt (AES256Decrypt P) m' (take 16 (CPubKey_GetHash P pub)) ct
             = AES256CBCDecrypt (AES256Decrypt P) m (take 16 (CPubKey_GetHash P pub)) ct)"
      by (intro DecryptKey_made [OF ok]) simp_all
    with h have "DecryptKey P m' ct pub = None" by (auto simp: c)
    then show "Unlock P st2 m' = Returns (False, st2)"
      unfolding closed by (simp add: c)
  qed
  show ?thesis
    apply (intro conjI)
           apply (rule getkey)
          apply (rule later)
         apply (rule good)
        apply (rule empty)
       apply (rule short)
      apply (rule closed)
     apply (rule iff)
    apply (rule wrong)
    done
qed

theorem Lock_then_Unlock_witness:
  "primitives_ok demo_P \<and> derivation_injective demo_P
   \<and> EncryptKeys demo_P demo_plain demo_master = (True, demo_crypted)
   \<and> Lock demo_crypted = (True, demo_crypted)
   \<and> map snd (mapKeys demo_plain) = [demo_key1, demo_key2]
   \<and> valid_key demo_key1 \<and> valid_key demo_key2
   \<and> (\<forall>address. GetKey demo_P demo_crypted address = None)
   \<and> run demo_P [OpUnlock demo_master] demo_crypted = Some demo_unlocked
   \<and> (\<forall>address. GetKey demo_P (snd (Lock demo_unlocked)) address = None)
   \<and> Unlock demo_P demo_crypted demo_master = Returns (True, demo_unlocked)
   \<and> length (replicate 31 (1::byte)) \<noteq> 32
   \<and> Unlock demo_P demo_crypted (replicate 31 1) = Returns (False, demo_crypted)
   \<and> length (replicate 32 (2::byte)) = 32
   \<and> Unlock demo_P demo_crypted (replicate 32 2) = Returns (False, demo_crypted)
   \<and> demo_master2 \<noteq> demo_master
   \<and> Unlock demo_P demo_crypted demo_master2
       = Returns (True, demo_crypted\<lparr>vMasterKey := demo_master2,
                                    fDecryptionThoroughlyChecked := True\<rparr>)"
proof -
  have e: "EncryptKeys demo_P demo_plain demo_master = (True, demo_crypted)"
    and l: "Lock demo_crypted = (True, demo_crypted)"
    and k: "mapKeys demo_plain \<noteq> []" "\<forall>(a, k) \<in> set (mapKeys demo_plain). valid_key k"
    and v: "map snd (mapKeys demo_plain) = [demo_key1, demo_key2]"
      "valid_key demo_key1" "valid_key demo_key2"
    and r: "run demo_P [OpUnlock demo_master] demo_crypted = Some demo_unlocked"
    and w: "Unlock demo_P demo_crypted (replicate 32 2) = Returns (False, demo_crypted)"
      "demo_master2 \<noteq> demo_master"
      "Unlock demo_P demo_crypted demo_master2
         = Returns (True, demo_crypted\<lparr>vMasterKey := demo_master2,
                                      fDecryptionThoroughlyChecked := True\<rparr>)"
    by code_simp+
  from Lock_then_Unlock [OF demo_primitives_ok e l,
      of "[OpUnlock demo_master]" demo_unlocked "replicate 31 1"] k r
  have "(\<forall>address. GetKey demo_P demo_crypted address = None)
    \<and> (\<forall>address. GetKey demo_P (snd (Lock demo_unlocked)) address = None)
    \<and> Unlock demo_P demo_crypted demo_master = Returns (True, demo_unlocked)
    \<and> Unlock demo_P demo_crypted (replicate 31 1) = Returns (False, demo_crypted)"
    by (simp add: demo_unlocked_def)
  then show ?thesis
    using demo_primitives_ok demo_derivation_injective e l v r w by simp
qed

text \<open>
  Claim C2 as stated fails on a store without keys: \<open>EncryptKeys\<close> returns true, and
  after \<open>Lock\<close> the call of \<open>Unlock\<close> with the same master key returns false, since no
  entry was accepted.
\<close>

theorem Unlock_fails_on_empty_store:
  "EncryptKeys demo_P demo_init demo_master = (True, demo_init\<lparr>fUseCrypto := True\<rparr>)
   \<and> Lock (demo_init\<lparr>fUseCrypto := True\<rparr>) = (True, demo_init\<lparr>fUseCrypto := True\<rparr>)
   \<and> Unlock demo_P (demo_init\<lparr>fUseCrypto := True\<rparr>) demo_master
       = Returns (False, demo_init\<lparr>fUseCrypto := True\<rparr>)"
  by code_simp

end
